theory Spec2Isabelle
  imports Complex_Main
begin

section \<open>StatusLogger: the bounded event history\<close>

text \<open>
  Source: class \<^verbatim>\<open>StatusLogger\<close> of \<^verbatim>\<open>auto_click_enhanced_simple.py\<close>.
  A log entry is the dictionary \<^verbatim>\<open>{"time", "device", "message", "level"}\<close>. The level is
  one of the three strings the callers pass. The message texts of the source are Chinese;
  they are written here in ASCII.
\<close>

datatype level = Info | Warning | Error

record log_entry =
  le_time :: string
  le_device :: string
  le_message :: string
  le_level :: level

text \<open>
  The logger owns \<^verbatim>\<open>self.history\<close>; \<^verbatim>\<open>message_queue\<close> is the module-level queue
  that \<^verbatim>\<open>log\<close> feeds with \<^verbatim>\<open>("log_event", log_entry)\<close>. The lock only serialises the
  calls, so one call is one atomic state transformer.
\<close>

record logger =
  history :: "log_entry list"
  message_queue :: "log_entry list"

definition logger_init :: logger where
  "logger_init = \<lparr>history = [], message_queue = []\<rparr>"

text \<open>Python's \<^verbatim>\<open>xs[-k:]\<close> for an integer \<^verbatim>\<open>k\<close>: the start index \<^verbatim>\<open>-k\<close> is taken from the
  end when negative (clamped at 0), from the front otherwise (so \<^verbatim>\<open>xs[-0:]\<close> is all of
  \<^verbatim>\<open>xs\<close>).\<close>

definition slice_from_neg :: "int \<Rightarrow> 'a list \<Rightarrow> 'a list" where
  "slice_from_neg k xs =
     (if 0 < k then drop (length xs - nat k) xs else drop (nat (- k)) xs)"

text \<open>\<^verbatim>\<open>StatusLogger.log(device, message, level)\<close>; \<^verbatim>\<open>now\<close> is what
  \<^verbatim>\<open>time.strftime("%H:%M:%S")\<close> returns at the call.\<close>

definition log :: "string \<Rightarrow> string \<Rightarrow> string \<Rightarrow> level \<Rightarrow> logger \<Rightarrow> logger" where
  "log now device message lvl L =
     (let log_entry = \<lparr>le_time = now, le_device = device, le_message = message, le_level = lvl\<rparr>;
          h = history L @ [log_entry];
          h' = (if length h > 1000 then slice_from_neg 1000 h else h)
      in \<lparr>history = h', message_queue = message_queue L @ [log_entry]\<rparr>)"

text \<open>\<^verbatim>\<open>StatusLogger.get_history(count=50)\<close>.\<close>

definition get_history :: "int \<Rightarrow> logger \<Rightarrow> log_entry list" where
  "get_history count L = slice_from_neg count (history L)"

text \<open>Publishing a sequence of entries, one \<^verbatim>\<open>log\<close> call each, oldest first.\<close>

definition log_entry_call :: "log_entry \<Rightarrow> logger \<Rightarrow> logger" where
  "log_entry_call e L = log (le_time e) (le_device e) (le_message e) (le_level e) L"

fun log_all :: "log_entry list \<Rightarrow> logger \<Rightarrow> logger" where
  "log_all [] L = L"
| "log_all (e # es) L = log_all es (log_entry_call e L)"

definition mk_entry :: "nat \<Rightarrow> log_entry" where
  "mk_entry i = \<lparr>le_time = ''00:00:00'', le_device = ''A'',
                 le_message = replicate i (CHR ''x''), le_level = Info\<rparr>"

section \<open>AutoClicker: adb commands, template matching, randomized clicks\<close>

text \<open>
  A Python exception is a value; the string is the exception's type name. A function whose
  body sits in \<^verbatim>\<open>try: ... except Exception\<close> is modelled in two layers: the body, of type
  \<open>exn + 'a\<close>, and the function, which maps \<open>Inl\<close> to what the handler returns.
\<close>

datatype exn = Raised string

text \<open>
  The collaborators outside the program: the adb subprocess, the imports made inside the
  functions, the file system and OpenCV. \<open>subprocess device command\<close> is
  \<^verbatim>\<open>subprocess.check_output\<close> on the adb command line built for \<open>device\<close> and
  \<open>command\<close>; \<open>match_template screen template\<close> is \<^verbatim>\<open>cv2.matchTemplate\<close> with
  \<^verbatim>\<open>TM_CCOEFF_NORMED\<close> followed by \<^verbatim>\<open>cv2.minMaxLoc\<close>, giving \<^verbatim>\<open>(max_val, max_loc)\<close> or
  raising; \<open>shape\<close> is \<^verbatim>\<open>template.shape[:2]\<close>, that is (height, width). Scores are
  real numbers. \<^verbatim>\<open>print\<close> is taken to succeed.
\<close>

record 'img env =
  subprocess :: "string \<Rightarrow> string \<Rightarrow> exn + string"
  numpy_ok :: bool
  cv2_ok :: bool
  path_exists :: "string \<Rightarrow> bool"
  imread :: "string \<Rightarrow> 'img option"
  match_template :: "'img \<Rightarrow> 'img \<Rightarrow> exn + (real \<times> (int \<times> int))"
  shape :: "'img \<Rightarrow> int \<times> int"

record auto_clicker =
  template_dir :: string
  threshold :: real

definition auto_clicker_init :: auto_clicker where
  "auto_clicker_init = \<lparr>template_dir = ''templates'', threshold = 8 / 10\<rparr>"

text \<open>A call of the adb subprocess: device id and command.\<close>

type_synonym adb_call = "string \<times> string"

text \<open>
  A character is a code point below 256. \<^verbatim>\<open>str.isspace\<close> holds of these of them: the
  controls U+0009 to U+000D and U+001C to U+001F, the space, U+0085 and U+00A0.
  \<^verbatim>\<open>str.strip()\<close> and \<^verbatim>\<open>str.split()\<close> take them as blanks.
\<close>

definition is_space :: "char \<Rightarrow> bool" where
  "is_space c = (c \<in> set [CHR 0x09, CHR 0x0A, CHR 0x0B, CHR 0x0C, CHR 0x0D,
                           CHR 0x1C, CHR 0x1D, CHR 0x1E, CHR 0x1F, CHR '' '',
                           CHR 0x85, CHR 0xA0])"

definition strip :: "string \<Rightarrow> string" where
  "strip s = rev (dropWhile is_space (rev (dropWhile is_space s)))"

text \<open>\<^verbatim>\<open>str(n)\<close> for an integer, as the f-strings print it.\<close>

function str_nat :: "nat \<Rightarrow> string" where
  "str_nat n = (if n < 10 then [''0123456789'' ! n]
                else str_nat (n div 10) @ [''0123456789'' ! (n mod 10)])"
  by pat_completeness auto
termination
  by (relation "measure (\<lambda>n. n)") auto

declare str_nat.simps [simp del]

definition str_int :: "int \<Rightarrow> string" where
  "str_int i = (if i < 0 then CHR ''-'' # str_nat (nat (- i)) else str_nat (nat i))"

text \<open>\<^verbatim>\<open>AutoClicker.execute_adb_command\<close>: the result with the adb calls it made.\<close>

definition execute_adb_command_body :: "'img env \<Rightarrow> string \<Rightarrow> string \<Rightarrow> exn + string" where
  "execute_adb_command_body E device_id command =
     (case subprocess E device_id command of
        Inl e \<Rightarrow> Inl e
      | Inr result \<Rightarrow> Inr (strip result))"

definition execute_adb_command :: "'img env \<Rightarrow> string \<Rightarrow> string \<Rightarrow> string \<times> adb_call list" where
  "execute_adb_command E device_id command =
     (case execute_adb_command_body E device_id command of
        Inl e \<Rightarrow> ([], [(device_id, command)])
      | Inr result \<Rightarrow> (result, [(device_id, command)]))"

text \<open>\<^verbatim>\<open>AutoClicker.tap\<close>. Nothing in the body raises, since \<^verbatim>\<open>execute_adb_command\<close>
  returns in every case; the handler's \<^verbatim>\<open>return False\<close> is the \<open>Inl\<close> branch.\<close>

definition tap_body :: "'img env \<Rightarrow> string \<Rightarrow> int \<Rightarrow> int \<Rightarrow> (exn + bool) \<times> adb_call list" where
  "tap_body E device_id x y =
     (let (out, calls) = execute_adb_command E device_id
                           (''shell input tap '' @ str_int x @ '' '' @ str_int y)
      in (Inr True, calls))"

definition tap :: "'img env \<Rightarrow> string \<Rightarrow> int \<Rightarrow> int \<Rightarrow> bool \<times> adb_call list" where
  "tap E device_id x y =
     (case tap_body E device_id x y of
        (Inl e, calls) \<Rightarrow> (False, calls)
      | (Inr b, calls) \<Rightarrow> (b, calls))"

text \<open>\<^verbatim>\<open>os.path.join(self.template_dir, f"{template_name}.png")\<close>, with the separator
  written as a slash.\<close>

definition template_path :: "auto_clicker \<Rightarrow> string \<Rightarrow> string" where
  "template_path ac template_name = template_dir ac @ ''/'' @ template_name @ ''.png''"

text \<open>\<^verbatim>\<open>AutoClicker.find_template(device_id, template_name, screen)\<close>.\<close>

definition find_template_body ::
  "auto_clicker \<Rightarrow> 'img env \<Rightarrow> string \<Rightarrow> 'img \<Rightarrow> exn + (int \<times> int) option" where
  "find_template_body ac E template_name screen =
     (if \<not> path_exists E (template_path ac template_name) then Inr None
      else if \<not> cv2_ok E then Inl (Raised ''ImportError'')
      else if \<not> numpy_ok E then Inl (Raised ''ImportError'')
      else case imread E (template_path ac template_name) of
        None \<Rightarrow> Inr None
      | Some template \<Rightarrow>
          (case match_template E screen template of
             Inl e \<Rightarrow> Inl e
           | Inr (max_val, max_loc) \<Rightarrow>
               if max_val \<ge> threshold ac then
                 (let (h, w) = shape E template;
                      center_x = fst max_loc + w div 2;
                      center_y = snd max_loc + h div 2
                  in Inr (Some (center_x, center_y)))
               else Inr None))"

definition find_template ::
  "auto_clicker \<Rightarrow> 'img env \<Rightarrow> string \<Rightarrow> 'img \<Rightarrow> (int \<times> int) option" where
  "find_template ac E template_name screen =
     (case find_template_body ac E template_name screen of
        Inl e \<Rightarrow> None
      | Inr r \<Rightarrow> r)"

text \<open>
  The random draws. \<^verbatim>\<open>random.randint(a, b)\<close> is an integer of \<open>{a..b}\<close>, here picked by a
  raw natural number; \<^verbatim>\<open>random.uniform(a, b)\<close> is \<^verbatim>\<open>a + (b - a) * random()\<close> with
  \<^verbatim>\<open>random()\<close> in \<open>[0, 1)\<close>, here the fractional part of a raw real number.
\<close>

definition randint :: "int \<Rightarrow> int \<Rightarrow> nat \<Rightarrow> int" where
  "randint a b raw = a + int raw mod (b - a + 1)"

definition uniform :: "real \<Rightarrow> real \<Rightarrow> real \<Rightarrow> real" where
  "uniform a b raw = a + (b - a) * frac raw"

text \<open>Python's \<^verbatim>\<open>int(x)\<close> on a float: truncation toward zero.\<close>

definition py_int :: "real \<Rightarrow> int" where
  "py_int r = (if 0 \<le> r then \<lfloor>r\<rfloor> else \<lceil>r\<rceil>)"

text \<open>The point \<^verbatim>\<open>random_click\<close> taps for the draws \<open>offset\<close> and \<open>angle\<close>.\<close>

definition click_point :: "int \<Rightarrow> int \<Rightarrow> int \<Rightarrow> real \<Rightarrow> int \<times> int" where
  "click_point x y offset angle =
     (let offset_x = py_int (real_of_int offset * cos angle);
          offset_y = py_int (real_of_int offset * sin angle)
      in (x + offset_x, y + offset_y))"

text \<open>\<^verbatim>\<open>AutoClicker.random_click(device_id, x, y, template_name)\<close>; \<open>raw_i\<close> and \<open>raw_u\<close>
  are the raw draws behind \<^verbatim>\<open>random.randint\<close> and \<^verbatim>\<open>random.uniform\<close>. The value
  \<^verbatim>\<open>tap\<close> returns is dropped, as in the source.\<close>

definition random_click_body ::
  "'img env \<Rightarrow> string \<Rightarrow> int \<Rightarrow> int \<Rightarrow> nat \<Rightarrow> real \<Rightarrow> (exn + bool) \<times> adb_call list" where
  "random_click_body E device_id x y raw_i raw_u =
     (let click_min = 5; click_max = 30 in
      if \<not> numpy_ok E then (Inl (Raised ''ImportError''), [])
      else
        let offset = randint click_min click_max raw_i;
            angle = uniform 0 (2 * pi) raw_u;
            (click_x, click_y) = click_point x y offset angle;
            (ok, calls) = tap E device_id click_x click_y
        in (Inr True, calls))"

definition random_click ::
  "'img env \<Rightarrow> string \<Rightarrow> int \<Rightarrow> int \<Rightarrow> nat \<Rightarrow> real \<Rightarrow> bool \<times> adb_call list" where
  "random_click E device_id x y raw_i raw_u =
     (case random_click_body E device_id x y raw_i raw_u of
        (Inl e, calls) \<Rightarrow> (False, calls)
      | (Inr b, calls) \<Rightarrow> (b, calls))"

section \<open>The device worker: \<^verbatim>\<open>AutoClickUI.device_thread_func\<close>\<close>

text \<open>
  Time is the value of \<^verbatim>\<open>time.time()\<close> in milliseconds, an integer; \<^verbatim>\<open>time.sleep(d)\<close>
  advances it by \<open>d\<close>, and a call that leaves the program (a capture, a template search, a
  click) advances it by the time the call takes, which the world gives. The world is
  everything the worker reads from outside, as functions of the clock at the call:
  \<^item> \<open>w_screen t\<close>: what \<^verbatim>\<open>get_screen(device_id)\<close> returns (\<open>None\<close> for a failed capture);
  \<^item> \<open>w_names\<close>: what \<^verbatim>\<open>get_template_names()\<close> returns;
  \<^item> \<open>w_cost t\<close>: the milliseconds taken by the outside call started at \<open>t\<close>;
  \<^item> \<open>w_randint t\<close>, \<open>w_uniform t\<close>: the raw random draws at \<open>t\<close>;
  \<^item> \<open>w_ui_raises t\<close>: whether \<^verbatim>\<open>self.update_status()\<close>, a call into the graphical shell made
    from the worker thread, raises at \<open>t\<close>;
  \<^item> \<open>w_strftime t\<close>: \<^verbatim>\<open>time.strftime("%H:%M:%S")\<close> at \<open>t\<close>.
\<close>

record 'img world =
  w_env :: "'img env"
  w_clicker :: auto_clicker
  w_names :: "string list"
  w_screen :: "int \<Rightarrow> 'img option"
  w_cost :: "int \<Rightarrow> nat"
  w_randint :: "int \<Rightarrow> nat"
  w_uniform :: "int \<Rightarrow> real"
  w_ui_raises :: "int \<Rightarrow> bool"
  w_strftime :: "int \<Rightarrow> string"

text \<open>What the supervisor thread does to the worker's two \<^verbatim>\<open>threading.Event\<close> objects
  (\<^verbatim>\<open>toggle_device\<close>, \<^verbatim>\<open>toggle_all_devices\<close>, \<^verbatim>\<open>stop_device\<close>, \<^verbatim>\<open>stop_all_devices\<close>).\<close>

datatype ui_cmd = PauseSet | PauseClear | StopSet

text \<open>What the worker does outside the program, with the clock at the call.\<close>

datatype event = Capture int | Find int string | Click int "adb_call list"

text \<open>
  The worker's state: the clock, the two shared events as they are at that clock, the
  supervisor's commands still to come (with their times, in time order), the two local
  time stamps of the loop, the logger with the message queue, and the trace of outside
  calls made so far.
\<close>

record wstate =
  now :: int
  stop_event :: bool
  pause_event :: bool
  supervisor :: "(int \<times> ui_cmd) list"
  last_log_time :: int
  last_click_time :: int
  status_logger :: logger
  trace :: "event list"

fun apply_cmd :: "ui_cmd \<Rightarrow> wstate \<Rightarrow> wstate" where
  "apply_cmd PauseSet s = s\<lparr>pause_event := True\<rparr>"
| "apply_cmd PauseClear s = s\<lparr>pause_event := False\<rparr>"
| "apply_cmd StopSet s = s\<lparr>stop_event := True\<rparr>"

text \<open>The commands issued up to time \<open>t\<close>, applied in their order.\<close>

fun deliver :: "int \<Rightarrow> (int \<times> ui_cmd) list \<Rightarrow> wstate \<Rightarrow> wstate" where
  "deliver t [] s = s\<lparr>supervisor := []\<rparr>"
| "deliver t ((t', c) # cs) s =
     (if t' \<le> t then deliver t cs (apply_cmd c s) else s\<lparr>supervisor := (t', c) # cs\<rparr>)"

definition sync :: "wstate \<Rightarrow> wstate" where
  "sync s = deliver (now s) (supervisor s) s"

text \<open>
  Whenever the clock moves (a sleep, or the time an outside call takes), the commands that
  fell into that time are applied to the events. So at every point where the worker reads
  or sets an event, and in every state a function returns, the two fields are the shared
  \<^verbatim>\<open>threading.Event\<close> objects at the clock of that state, provided the state the thread
  starts from has none of its commands overdue (\<open>sync\<close> at the head of the loop sees to
  that too).
\<close>

definition advance :: "nat \<Rightarrow> wstate \<Rightarrow> wstate" where
  "advance ms s = sync (s\<lparr>now := now s + int ms\<rparr>)"

definition sleep :: "nat \<Rightarrow> wstate \<Rightarrow> wstate" where
  "sleep ms s = advance ms s"

definition outside :: "'img world \<Rightarrow> event \<Rightarrow> wstate \<Rightarrow> wstate" where
  "outside w ev s = advance (w_cost w (now s)) (s\<lparr>trace := trace s @ [ev]\<rparr>)"

definition get_screen :: "'img world \<Rightarrow> wstate \<Rightarrow> 'img option \<times> wstate" where
  "get_screen w s = (w_screen w (now s), outside w (Capture (now s)) s)"

definition find :: "'img world \<Rightarrow> string \<Rightarrow> 'img \<Rightarrow> wstate \<Rightarrow> (int \<times> int) option \<times> wstate" where
  "find w template_name screen s =
     (find_template (w_clicker w) (w_env w) template_name screen,
      outside w (Find (now s) template_name) s)"

definition click :: "'img world \<Rightarrow> string \<Rightarrow> int \<Rightarrow> int \<Rightarrow> wstate \<Rightarrow> bool \<times> wstate" where
  "click w device_id x y s =
     (let (ok, calls) = random_click (w_env w) device_id x y
                          (w_randint w (now s)) (w_uniform w (now s))
      in (ok, outside w (Click (now s) calls) s))"

definition wlog :: "'img world \<Rightarrow> string \<Rightarrow> string \<Rightarrow> level \<Rightarrow> wstate \<Rightarrow> wstate" where
  "wlog w device message lvl s =
     s\<lparr>status_logger := log (w_strftime w (now s)) device message lvl (status_logger s)\<rparr>"

definition queue_put :: "log_entry \<Rightarrow> wstate \<Rightarrow> wstate" where
  "queue_put e s =
     s\<lparr>status_logger := (status_logger s)\<lparr>message_queue := message_queue (status_logger s) @ [e]\<rparr>\<rparr>"

text \<open>\<^verbatim>\<open>random_delay(template_name, 1, 3)\<close> and the wait before \<^verbatim>\<open>button7\<close>: a uniform
  draw of seconds, here in whole milliseconds.\<close>

definition uniform_ms :: "'img world \<Rightarrow> nat \<Rightarrow> nat \<Rightarrow> wstate \<Rightarrow> nat" where
  "uniform_ms w lo hi s = nat \<lfloor>uniform (real lo) (real hi) (w_uniform w (now s))\<rfloor>"

definition random_delay :: "'img world \<Rightarrow> nat \<Rightarrow> nat \<Rightarrow> wstate \<Rightarrow> wstate" where
  "random_delay w min_delay max_delay s = sleep (uniform_ms w min_delay max_delay s) s"

text \<open>How a piece of the loop body ends: it falls through to the next statement, it
  leaves the enclosing loop by \<^verbatim>\<open>break\<close>, it goes to the loop head by \<^verbatim>\<open>continue\<close>, or it
  raises.\<close>

datatype ctl = Next | Break | Continue | Raise

text \<open>
  The block that follows a match of \<^verbatim>\<open>lose\<close> or \<^verbatim>\<open>notupo\<close> (three copies in the source):
  a warning is logged, the pause event is set, a second warning record is put on the
  message queue, the shell is asked to redraw, \<^verbatim>\<open>break\<close>.
\<close>

definition abort_block :: "'img world \<Rightarrow> string \<Rightarrow> string \<Rightarrow> string \<Rightarrow> wstate \<Rightarrow> ctl \<times> wstate" where
  "abort_block w device_info message queued s =
     (let s1 = wlog w device_info message Warning s;
          s2 = s1\<lparr>pause_event := True\<rparr>;
          s3 = queue_put \<lparr>le_time = w_strftime w (now s2), le_device = device_info,
                          le_message = queued, le_level = Warning\<rparr> s2
      in if w_ui_raises w (now s3) then (Raise, s3) else (Break, s3))"

text \<open>
  The body of the \<^verbatim>\<open>for template_name in ...\<close> loop once \<^verbatim>\<open>find_template\<close> has returned
  the position \<open>(x, y)\<close>, one definition for each branch of the source's
  \<^verbatim>\<open>if template_name == "button10" ... elif template_name == "button7" ... else\<close>.
  \<open>Next\<close> stands for going on with the next template (\<^verbatim>\<open>random_click\<close> returned
  \<^verbatim>\<open>False\<close>); the flag is \<^verbatim>\<open>clicked\<close>.
\<close>

definition on_button10 ::
  "'img world \<Rightarrow> string \<Rightarrow> string \<Rightarrow> int \<Rightarrow> int \<Rightarrow> int \<Rightarrow> wstate \<Rightarrow> ctl \<times> bool \<times> wstate" where
  "on_button10 w device_id device_info current_time x y s =
     (let (ok, s2) = click w device_id x y s in
      if ok then
        (let s3 = (wlog w device_info ''clicked button10'' Info s2)
                    \<lparr>last_click_time := current_time\<rparr>;
             s4 = sleep 500 s3;
             (check_screen, s5) = get_screen w s4
         in case check_screen of
              None \<Rightarrow> (Break, True, s5)
            | Some cs \<Rightarrow>
                (let (p, s6) = find w ''notupo'' cs s5 in
                 if p \<noteq> None then
                   (let (c, s7) = abort_block w device_info
                                    ''notupo detected after clicking button10''
                                    ''notupo detected, paused'' s6
                    in (c, True, s7))
                 else (Break, True, s6)))
      else (Next, False, s2))"

definition on_button7 ::
  "'img world \<Rightarrow> string \<Rightarrow> string \<Rightarrow> int \<Rightarrow> int \<Rightarrow> int \<Rightarrow> wstate \<Rightarrow> ctl \<times> bool \<times> wstate" where
  "on_button7 w device_id device_info current_time x y s =
     (let wait_time = uniform_ms w 8000 10000 s;
          s2 = wlog w device_info
                 (''button7 detected, clicking after ms '' @ str_int (int wait_time)) Info s;
          s3 = sleep wait_time s2;
          (ok, s4) = click w device_id x y s3
      in if ok then
           (Break, True,
            random_delay w 1000 3000
              ((wlog w device_info ''clicked button7'' Info s4)
                 \<lparr>last_click_time := current_time\<rparr>))
         else (Next, False, s4))"

definition on_other_button ::
  "'img world \<Rightarrow> string \<Rightarrow> string \<Rightarrow> int \<Rightarrow> string \<Rightarrow> int \<Rightarrow> int \<Rightarrow> wstate
     \<Rightarrow> ctl \<times> bool \<times> wstate" where
  "on_other_button w device_id device_info current_time template_name x y s =
     (let (ok, s2) = click w device_id x y s
      in if ok then
           (Break, True,
            random_delay w 1000 3000
              ((wlog w device_info (''clicked '' @ template_name) Info s2)
                 \<lparr>last_click_time := current_time\<rparr>))
         else (Next, False, s2))"

definition on_match ::
  "'img world \<Rightarrow> string \<Rightarrow> string \<Rightarrow> int \<Rightarrow> bool \<Rightarrow> string \<Rightarrow> int \<Rightarrow> int \<Rightarrow> wstate
     \<Rightarrow> ctl \<times> bool \<times> wstate" where
  "on_match w device_id device_info current_time verbose_log template_name x y s =
     (let s1 = (if verbose_log
                then (wlog w device_info (''found button '' @ template_name) Info s)
                       \<lparr>last_log_time := current_time\<rparr>
                else s)
      in
      if template_name = ''button10'' then
        on_button10 w device_id device_info current_time x y s1
      else if template_name = ''button7'' then
        on_button7 w device_id device_info current_time x y s1
      else
        on_other_button w device_id device_info current_time template_name x y s1)"

text \<open>The \<^verbatim>\<open>for template_name in self.auto_clicker.get_template_names()\<close> loop. The
  result says whether the loop raised (\<open>Raise\<close>) or ended (\<open>Next\<close>), and \<^verbatim>\<open>clicked\<close>.\<close>

fun click_loop ::
  "'img world \<Rightarrow> string \<Rightarrow> string \<Rightarrow> 'img \<Rightarrow> int \<Rightarrow> bool \<Rightarrow> string list \<Rightarrow> wstate
     \<Rightarrow> ctl \<times> bool \<times> wstate" where
  "click_loop w device_id device_info screen current_time verbose_log [] s = (Next, False, s)"
| "click_loop w device_id device_info screen current_time verbose_log (template_name # rest) s =
     (let s0 = sync s in
      if stop_event s0 \<or> pause_event s0 then (Next, False, s0)
      else
        (case find w template_name screen s0 of
           (None, s1) \<Rightarrow>
             click_loop w device_id device_info screen current_time verbose_log rest s1
         | (Some (x, y), s1) \<Rightarrow>
             (case on_match w device_id device_info current_time verbose_log template_name x y s1 of
                (Next, clicked, s2) \<Rightarrow>
                  click_loop w device_id device_info screen current_time verbose_log rest s2
              | (Raise, clicked, s2) \<Rightarrow> (Raise, clicked, s2)
              | (c, clicked, s2) \<Rightarrow> (Next, clicked, s2))))"

definition click_cooldown :: int where
  "click_cooldown = 1000"

text \<open>The \<^verbatim>\<open>try\<close> body of one pass of the \<^verbatim>\<open>while\<close> loop, entered when the pause event
  is clear.\<close>

definition iteration :: "'img world \<Rightarrow> string \<Rightarrow> string \<Rightarrow> wstate \<Rightarrow> ctl \<times> wstate" where
  "iteration w device_id device_info s =
     (let current_time = now s;
          verbose_log = (current_time - last_log_time s > 10000);
          (screen, s1) = get_screen w s
      in case screen of
           None \<Rightarrow> (Continue, sleep 1000 (wlog w device_info ''screen capture failed'' Error s1))
         | Some scr \<Rightarrow>
             (let (lose_pos, s2) = find w ''lose'' scr s1 in
              if lose_pos \<noteq> None then
                abort_block w device_info ''lose detected'' ''lose detected, paused'' s2
              else
                (let (notupo_pos, s3) = find w ''notupo'' scr s2 in
                 if notupo_pos \<noteq> None then
                   abort_block w device_info ''notupo detected'' ''notupo detected, paused'' s3
                 else if current_time - last_click_time s3 < click_cooldown then
                   (Continue, sleep 100 s3)
                 else
                   (case click_loop w device_id device_info scr current_time verbose_log
                           (w_names w) s3 of
                      (Raise, clicked, s4) \<Rightarrow> (Raise, s4)
                    | (c, clicked, s4) \<Rightarrow>
                        if \<not> clicked then
                          (Next,
                           sleep 500
                             (if verbose_log
                              then (wlog w device_info ''waiting for a target'' Info s4)
                                     \<lparr>last_log_time := current_time\<rparr>
                              else s4))
                        else (Next, s4)))))"

subsection \<open>The clock only moves forward\<close>

text \<open>Every pass of the worker's loop that returns to the loop head has slept; this is
  what makes the \<^verbatim>\<open>while\<close> loop below a total function.\<close>

lemma now_apply_cmd [simp]: "now (apply_cmd c s) = now s"
  by (cases c) simp_all

lemma now_deliver [simp]: "now (deliver t cs s) = now s"
  by (induction t cs s rule: deliver.induct) simp_all

lemma now_sync [simp]: "now (sync s) = now s"
  by (simp add: sync_def)

lemma deliver_keeps:
  "trace (deliver t cs s) = trace s" "status_logger (deliver t cs s) = status_logger s"
  "last_click_time (deliver t cs s) = last_click_time s" "last_log_time (deliver t cs s) = last_log_time s"
proof -
  have k: "\<And>c s. trace (apply_cmd c s) = trace s \<and> status_logger (apply_cmd c s) = status_logger s
     \<and> last_click_time (apply_cmd c s) = last_click_time s \<and> last_log_time (apply_cmd c s) = last_log_time s"
    subgoal for c s by (cases c) simp_all
    done
  show "trace (deliver t cs s) = trace s"
    by (induction t cs s rule: deliver.induct) (simp_all add: k)
  show "status_logger (deliver t cs s) = status_logger s"
    by (induction t cs s rule: deliver.induct) (simp_all add: k)
  show "last_click_time (deliver t cs s) = last_click_time s"
    by (induction t cs s rule: deliver.induct) (simp_all add: k)
  show "last_log_time (deliver t cs s) = last_log_time s"
    by (induction t cs s rule: deliver.induct) (simp_all add: k)
qed

lemma sync_keeps:
  "trace (sync s) = trace s" "status_logger (sync s) = status_logger s"
  "last_click_time (sync s) = last_click_time s" "last_log_time (sync s) = last_log_time s"
  by (simp_all add: sync_def deliver_keeps)

lemma sync_idle: "supervisor s = [] \<Longrightarrow> sync s = s"
  by (simp add: sync_def)

lemma advance_fields:
  "now (advance ms s) = now s + int ms" "trace (advance ms s) = trace s"
  "status_logger (advance ms s) = status_logger s"
  "last_click_time (advance ms s) = last_click_time s"
  "last_log_time (advance ms s) = last_log_time s"
  by (simp_all add: advance_def sync_keeps)

lemma advance_idle: "supervisor s = [] \<Longrightarrow> advance ms s = s\<lparr>now := now s + int ms\<rparr>"
  by (simp add: advance_def sync_idle)

lemma sleep_fields:
  "trace (sleep ms s) = trace s" "status_logger (sleep ms s) = status_logger s"
  "last_click_time (sleep ms s) = last_click_time s"
  "last_log_time (sleep ms s) = last_log_time s"
  by (simp_all add: sleep_def advance_fields)

lemma outside_fields:
  "now (outside w ev s) = now s + int (w_cost w (now s))"
  "trace (outside w ev s) = trace s @ [ev]"
  "status_logger (outside w ev s) = status_logger s"
  "last_click_time (outside w ev s) = last_click_time s"
  "last_log_time (outside w ev s) = last_log_time s"
  by (simp_all add: outside_def advance_fields)

lemma now_sleep [simp]: "now (sleep ms s) = now s + int ms"
  by (simp add: sleep_def advance_fields)


lemma now_wlog [simp]: "now (wlog w d m l s) = now s"
  by (simp add: wlog_def)

lemma now_queue_put [simp]: "now (queue_put e s) = now s"
  by (simp add: queue_put_def)

lemma now_get_screen: "get_screen w s = (r, s') \<Longrightarrow> now s \<le> now s'"
  by (auto simp: get_screen_def outside_fields)

lemma now_find: "find w n scr s = (r, s') \<Longrightarrow> now s \<le> now s'"
  by (auto simp: find_def outside_fields)

lemma now_click: "click w d x y s = (r, s') \<Longrightarrow> now s \<le> now s'"
  by (auto simp: click_def outside_fields split: prod.splits)

lemma now_abort_block: "abort_block w d m q s = (c, s') \<Longrightarrow> now s' = now s"
  by (auto simp: abort_block_def Let_def split: if_splits)

lemma uniform_ms_ge: "lo \<le> hi \<Longrightarrow> lo \<le> uniform_ms w lo hi s"
proof -
  assume "lo \<le> hi"
  then have "real lo \<le> uniform (real lo) (real hi) (w_uniform w (now s))"
    by (simp add: uniform_def)
  then have "int lo \<le> \<lfloor>uniform (real lo) (real hi) (w_uniform w (now s))\<rfloor>"
    by (simp add: le_floor_iff)
  then show ?thesis by (simp add: uniform_ms_def)
qed

lemma now_random_delay: "lo \<le> hi \<Longrightarrow> now s + int lo \<le> now (random_delay w lo hi s)"
  using uniform_ms_ge [of lo hi w s] by (simp add: random_delay_def)

lemma now_on_button10:
  assumes "on_button10 w d i ct x y s = (c, clicked, s')"
  shows "now s \<le> now s' \<and> (clicked \<longrightarrow> now s + 500 \<le> now s')"
  using assms
  by (auto simp: on_button10_def Let_def split: if_splits prod.splits option.splits
       dest!: now_click now_get_screen now_find now_abort_block)

lemma now_on_button7:
  assumes "on_button7 w d i ct x y s = (c, clicked, s')"
  shows "now s \<le> now s' \<and> (clicked \<longrightarrow> now s + 500 \<le> now s')"
proof -
  obtain ok s4 where c: "click w d x y (sleep (uniform_ms w 8000 10000 s)
      (wlog w i (''button7 detected, clicking after ms '' @ str_int (int (uniform_ms w 8000 10000 s))) Info s)) = (ok, s4)"
    by fastforce
  have a: "now s \<le> now s4" using now_click [OF c] by simp
  show ?thesis
  proof (cases ok)
    case True
    then have "s' = random_delay w 1000 3000 ((wlog w i ''clicked button7'' Info s4)\<lparr>last_click_time := ct\<rparr>)"
      using assms c by (simp add: on_button7_def Let_def)
    then have "now s4 + 1000 \<le> now s'"
      using now_random_delay [of 1000 3000 "(wlog w i ''clicked button7'' Info s4)\<lparr>last_click_time := ct\<rparr>" w]
      by simp
    then show ?thesis using a by simp
  next
    case False
    then show ?thesis using assms c a by (simp add: on_button7_def Let_def)
  qed
qed

lemma now_on_other_button:
  assumes "on_other_button w d i ct n x y s = (c, clicked, s')"
  shows "now s \<le> now s' \<and> (clicked \<longrightarrow> now s + 500 \<le> now s')"
proof -
  obtain ok s2 where c: "click w d x y s = (ok, s2)" by fastforce
  have a: "now s \<le> now s2" using now_click [OF c] by simp
  show ?thesis
  proof (cases ok)
    case True
    then have "s' = random_delay w 1000 3000 ((wlog w i (''clicked '' @ n) Info s2)\<lparr>last_click_time := ct\<rparr>)"
      using assms c by (simp add: on_other_button_def Let_def)
    then have "now s2 + 1000 \<le> now s'"
      using now_random_delay [of 1000 3000 "(wlog w i (''clicked '' @ n) Info s2)\<lparr>last_click_time := ct\<rparr>" w]
      by simp
    then show ?thesis using a by simp
  next
    case False
    then show ?thesis using assms c a by (simp add: on_other_button_def Let_def)
  qed
qed

lemma now_on_match:
  assumes "on_match w d i ct v n x y s = (c, clicked, s')"
  shows "now s \<le> now s' \<and> (clicked \<longrightarrow> now s + 500 \<le> now s')"
proof -
  define s1 where "s1 = (if v then (wlog w i (''found button '' @ n) Info s)\<lparr>last_log_time := ct\<rparr> else s)"
  have n1: "now s1 = now s" by (simp add: s1_def)
  have "on_button10 w d i ct x y s1 = (c, clicked, s')
      \<or> on_button7 w d i ct x y s1 = (c, clicked, s')
      \<or> on_other_button w d i ct n x y s1 = (c, clicked, s')"
    using assms unfolding on_match_def Let_def s1_def by (simp split: if_splits)
  then show ?thesis
    using now_on_button10 [of w d i ct x y s1 c clicked s']
      now_on_button7 [of w d i ct x y s1 c clicked s']
      now_on_other_button [of w d i ct n x y s1 c clicked s'] n1
    by auto
qed

lemma now_click_loop:
  "click_loop w d i scr ct v ns s = (c, clicked, s') \<Longrightarrow>
   now s \<le> now s' \<and> (clicked \<longrightarrow> now s + 500 \<le> now s')"
proof (induction ns arbitrary: s)
  case Nil
  then show ?case by simp
next
  case (Cons n ns)
  show ?case
  proof (cases "stop_event (sync s) \<or> pause_event (sync s)")
    case True
    then show ?thesis using Cons.prems by (auto simp: Let_def)
  next
    case False
    obtain p s1 where f: "find w n scr (sync s) = (p, s1)" by fastforce
    have a: "now s \<le> now s1" using now_find [OF f] by simp
    show ?thesis
    proof (cases p)
      case None
      then have "click_loop w d i scr ct v ns s1 = (c, clicked, s')"
        using Cons.prems False f by (simp add: Let_def)
      from Cons.IH [OF this] a show ?thesis by auto
    next
      case (Some xy)
      obtain x y where xy: "xy = (x, y)" by fastforce
      obtain c2 cl2 s2 where m: "on_match w d i ct v n x y s1 = (c2, cl2, s2)"
        by (metis prod_cases3)
      have b: "now s1 \<le> now s2 \<and> (cl2 \<longrightarrow> now s1 + 500 \<le> now s2)"
        by (rule now_on_match [OF m])
      show ?thesis
      proof (cases "c2 = Next")
        case True
        then have "click_loop w d i scr ct v ns s2 = (c, clicked, s')"
          using Cons.prems False f Some xy m by (simp add: Let_def)
        from Cons.IH [OF this] a b show ?thesis by auto
      next
        case False
        then have "clicked = cl2 \<and> s' = s2"
          using Cons.prems \<open>\<not> (stop_event (sync s) \<or> pause_event (sync s))\<close> f Some xy m
          by (cases c2) (auto simp: Let_def)
        then show ?thesis using a b by auto
      qed
    qed
  qed
qed

lemma now_iteration:
  assumes "iteration w d i s = (c, s')"
  shows "now s \<le> now s' \<and> (c = Next \<or> c = Continue \<longrightarrow> now s + 100 \<le> now s')"
proof -
  obtain scr s1 where g: "get_screen w s = (scr, s1)" by fastforce
  have a: "now s \<le> now s1" by (rule now_get_screen [OF g])
  show ?thesis
  proof (cases scr)
    case None
    then show ?thesis using assms g a by (auto simp: iteration_def Let_def)
  next
    case (Some fr)
    obtain lp s2 where f1: "find w ''lose'' fr s1 = (lp, s2)" by fastforce
    have b: "now s1 \<le> now s2" by (rule now_find [OF f1])
    show ?thesis
    proof (cases "lp \<noteq> None")
      case True
      then have "abort_block w i ''lose detected'' ''lose detected, paused'' s2 = (c, s')"
        using assms g Some f1 by (simp add: iteration_def Let_def)
      then have "now s' = now s2 \<and> c \<noteq> Next \<and> c \<noteq> Continue"
        by (auto simp: abort_block_def Let_def split: if_splits)
      then show ?thesis using a b by auto
    next
      case False
      obtain np s3 where f2: "find w ''notupo'' fr s2 = (np, s3)" by fastforce
      have c3: "now s2 \<le> now s3" by (rule now_find [OF f2])
      show ?thesis
      proof (cases "np \<noteq> None")
        case True
        then have "abort_block w i ''notupo detected'' ''notupo detected, paused'' s3 = (c, s')"
          using assms g Some f1 f2 False by (simp add: iteration_def Let_def)
        then have "now s' = now s3 \<and> c \<noteq> Next \<and> c \<noteq> Continue"
          by (auto simp: abort_block_def Let_def split: if_splits)
        then show ?thesis using a b c3 by auto
      next
        case np: False
        show ?thesis
        proof (cases "now s - last_click_time s3 < click_cooldown")
          case True
          then show ?thesis using assms g Some f1 f2 False np a b c3
            by (auto simp: iteration_def Let_def)
        next
          case cd: False
          obtain c4 cl4 s4 where l: "click_loop w d i fr (now s) (now s - last_log_time s > 10000) (w_names w) s3 = (c4, cl4, s4)"
            by (metis prod_cases3)
          have e: "now s3 \<le> now s4 \<and> (cl4 \<longrightarrow> now s3 + 500 \<le> now s4)"
            by (rule now_click_loop [OF l])
          show ?thesis using assms g Some f1 f2 False np cd l e a b c3
            by (cases c4) (auto simp: iteration_def Let_def split: if_splits)
        qed
      qed
    qed
  qed
qed

subsection \<open>The \<^verbatim>\<open>while\<close> loop and the thread function\<close>

text \<open>
  One pass of \<^verbatim>\<open>while not stop_event.is_set() and time.time() < end_time\<close>, entered with
  the loop condition true: the pause branch, or the \<^verbatim>\<open>try\<close> body with its handler
  (\<^verbatim>\<open>except Exception\<close>: an error is logged, two seconds of sleep). The flag says whether the
  loop goes on (\<open>False\<close> after \<^verbatim>\<open>break\<close>).
\<close>

definition pass :: "'img world \<Rightarrow> string \<Rightarrow> string \<Rightarrow> wstate \<Rightarrow> bool \<times> wstate" where
  "pass w device_id device_info s =
     (if pause_event s then (True, sleep 1000 s)
      else
        (case iteration w device_id device_info s of
           (Break, s1) \<Rightarrow> (False, s1)
         | (Raise, s1) \<Rightarrow>
             (True, sleep 2000 (wlog w device_info ''click operation failed'' Error s1))
         | (c, s1) \<Rightarrow> (True, s1)))"

lemma now_pass: "pass w d i s = (True, s') \<Longrightarrow> now s < now s'"
proof -
  assume p: "pass w d i s = (True, s')"
  show ?thesis
  proof (cases "pause_event s")
    case True
    then show ?thesis using p by (auto simp: pass_def)
  next
    case False
    obtain c s1 where it: "iteration w d i s = (c, s1)" by fastforce
    from now_iteration [OF it] p False it show ?thesis
      by (cases c) (auto simp: pass_def)
  qed
qed

function worker_loop :: "'img world \<Rightarrow> string \<Rightarrow> string \<Rightarrow> int \<Rightarrow> wstate \<Rightarrow> wstate" where
  "worker_loop w device_id device_info end_time s =
     (let s0 = sync s in
      if stop_event s0 \<or> \<not> now s0 < end_time then s0
      else
        (case pass w device_id device_info s0 of
           (True, s1) \<Rightarrow> worker_loop w device_id device_info end_time s1
         | (False, s1) \<Rightarrow> s1))"
  by pat_completeness auto
termination
proof (relation "measure (\<lambda>(w, device_id, device_info, end_time, s). nat (end_time - now s))",
       goal_cases)
  case 1
  show ?case by simp
next
  case (2 w device_id device_info end_time s s0 x1 s1)
  then have "pass w device_id device_info (sync s) = (True, s1)" by simp
  from now_pass [OF this] 2 show ?case by simp
qed

declare worker_loop.simps [simp del]

text \<open>\<^verbatim>\<open>device_thread_func(device_id, device_info, stop_event, pause_event, duration)\<close>;
  \<open>duration\<close> is in minutes. The state it starts from holds the clock at the thread's start
  and the two events \<^verbatim>\<open>start_device\<close> has just created.\<close>

definition device_thread_func ::
  "'img world \<Rightarrow> string \<Rightarrow> string \<Rightarrow> int \<Rightarrow> wstate \<Rightarrow> wstate" where
  "device_thread_func w device_id device_info duration s =
     (let s1 = wlog w device_info ''thread started'' Info s;
          end_time = now s1 + duration * 60000;
          s2 = s1\<lparr>last_log_time := 0, last_click_time := 0\<rparr>;
          s3 = worker_loop w device_id device_info end_time s2;
          s4 = wlog w device_info ''thread finished'' Info s3
      in wlog w device_info ''thread cleaning up'' Info s4)"

definition wstate_init :: "int \<Rightarrow> (int \<times> ui_cmd) list \<Rightarrow> logger \<Rightarrow> wstate" where
  "wstate_init t cmds L =
     \<lparr>now = t, stop_event = False, pause_event = False, supervisor = cmds,
      last_log_time = 0, last_click_time = 0, status_logger = L, trace = []\<rparr>"

text \<open>The clicks of a trace: the clock at each \<^verbatim>\<open>random_click\<close> that dispatched a tap.\<close>

fun click_times :: "event list \<Rightarrow> int list" where
  "click_times [] = []"
| "click_times (Click t calls # evs) = (if calls = [] then click_times evs else t # click_times evs)"
| "click_times (ev # evs) = click_times evs"

fun find_names :: "event list \<Rightarrow> string list" where
  "find_names [] = []"
| "find_names (Find t n # evs) = n # find_names evs"
| "find_names (ev # evs) = find_names evs"

section \<open>The supervisor: \<^verbatim>\<open>AutoClickUI.start_device\<close> and \<^verbatim>\<open>stop_device\<close>\<close>

text \<open>
  The \<^verbatim>\<open>threading.Thread\<close> and \<^verbatim>\<open>threading.Event\<close> objects live in two stores, lists
  indexed by reference; an object is created by appending, so a reference once handed out
  stays valid. A thread object keeps the references of the two events it was given as
  arguments. The three dictionaries of \<^verbatim>\<open>AutoClickUI\<close> map a device id to a reference.
  The log calls and the redrawing of the window, which do not touch the dictionaries or
  the objects, are left out.
\<close>

record thread =
  t_device :: string
  t_alive :: bool
  t_stop :: nat
  t_pause :: nat
  t_run_duration :: int

record ui_state =
  events :: "bool list"
  threads :: "thread list"
  device_threads :: "string \<rightharpoonup> nat"
  stop_events :: "string \<rightharpoonup> nat"
  pause_events :: "string \<rightharpoonup> nat"

definition ui_init :: ui_state where
  "ui_init = \<lparr>events = [], threads = [], device_threads = Map.empty,
              stop_events = Map.empty, pause_events = Map.empty\<rparr>"

text \<open>\<^verbatim>\<open>thread.is_alive()\<close>.\<close>

definition is_alive :: "ui_state \<Rightarrow> nat \<Rightarrow> bool" where
  "is_alive ui th = (th < length (threads ui) \<and> t_alive (threads ui ! th))"

text \<open>A worker thread ends: its loop was left (stop seen, end time passed, \<^verbatim>\<open>break\<close>).\<close>

definition thread_exit :: "nat \<Rightarrow> ui_state \<Rightarrow> ui_state" where
  "thread_exit th ui =
     (if th < length (threads ui)
      then ui\<lparr>threads := (threads ui)[th := (threads ui ! th)\<lparr>t_alive := False\<rparr>]\<rparr>
      else ui)"

text \<open>
  \<^verbatim>\<open>stop_device(device_id)\<close>. The stop event is set; then \<^verbatim>\<open>thread.join(0.1)\<close> waits for the
  worker for at most a tenth of a second and returns in either case. Whether the worker
  ends within that time (it reads the stop event only at the head of its loop, after
  whatever sleep it is in) is the input \<open>exits\<close>.
\<close>

definition stop_device :: "string \<Rightarrow> bool \<Rightarrow> ui_state \<Rightarrow> ui_state" where
  "stop_device device_id exits ui =
     (case stop_events ui device_id of
        None \<Rightarrow> ui
      | Some ev \<Rightarrow>
          (let ui1 = ui\<lparr>events := (events ui)[ev := True]\<rparr> in
           case device_threads ui1 device_id of
             None \<Rightarrow> ui1
           | Some th \<Rightarrow> if is_alive ui1 th \<and> exits then thread_exit th ui1 else ui1))"

text \<open>
  \<^verbatim>\<open>start_device(device_id, device_info, duration)\<close>. \<open>duration\<close> is \<open>None\<close> when the
  argument is left out; \<open>dialog\<close> is what \<^verbatim>\<open>get_duration()\<close> returns if it is asked
  (\<^verbatim>\<open>if not duration\<close>: the argument is left out or is 0), and the call returns at once if
  the answer is not positive;
  \<open>start_ok\<close> says whether \<^verbatim>\<open>thread.start()\<close> returns normally (otherwise the handler
  removes the three entries again). \<^verbatim>\<open>device_info\<close> is only passed on to the worker.
\<close>

definition asked_duration :: "int option \<Rightarrow> int \<Rightarrow> int" where
  "asked_duration duration dialog =
     (case duration of None \<Rightarrow> dialog | Some v \<Rightarrow> if v = 0 then dialog else v)"

definition returns_early :: "int option \<Rightarrow> int \<Rightarrow> bool" where
  "returns_early duration dialog =
     ((case duration of None \<Rightarrow> True | Some v \<Rightarrow> v = 0) \<and> asked_duration duration dialog \<le> 0)"

definition start_device ::
  "string \<Rightarrow> int option \<Rightarrow> int \<Rightarrow> bool \<Rightarrow> bool \<Rightarrow> ui_state \<Rightarrow> ui_state" where
  "start_device device_id duration dialog exits start_ok ui =
     (if returns_early duration dialog then ui
      else
        (let dur = asked_duration duration dialog;
             ui1 = stop_device device_id exits ui;
             stop_event = length (events ui1);
             pause_event = Suc (length (events ui1));
             ui2 = ui1\<lparr>events := events ui1 @ [False, False],
                       stop_events := (stop_events ui1)(device_id \<mapsto> stop_event),
                       pause_events := (pause_events ui1)(device_id \<mapsto> pause_event)\<rparr>;
             th = length (threads ui2);
             ui3 = ui2\<lparr>threads := threads ui2 @
                          [\<lparr>t_device = device_id, t_alive = False, t_stop = stop_event,
                            t_pause = pause_event, t_run_duration = dur\<rparr>],
                       device_threads := (device_threads ui2)(device_id \<mapsto> th)\<rparr>
         in if start_ok
            then ui3\<lparr>threads := (threads ui3)[th := (threads ui3 ! th)\<lparr>t_alive := True\<rparr>]\<rparr>
            else ui3\<lparr>device_threads := (device_threads ui3)(device_id := None),
                     stop_events := (stop_events ui3)(device_id := None),
                     pause_events := (pause_events ui3)(device_id := None)\<rparr>))"

text \<open>A sequence of calls of the supervisor, with worker threads ending in between.\<close>

datatype op = Start string "int option" int bool bool | Stop string bool | Exit nat

fun step :: "op \<Rightarrow> ui_state \<Rightarrow> ui_state" where
  "step (Start device_id duration dialog exits start_ok) ui =
     start_device device_id duration dialog exits start_ok ui"
| "step (Stop device_id exits) ui = stop_device device_id exits ui"
| "step (Exit th) ui = thread_exit th ui"

fun run :: "op list \<Rightarrow> ui_state \<Rightarrow> ui_state" where
  "run [] ui = ui"
| "run (c # cs) ui = run cs (step c ui)"

text \<open>
  A live session of a device: a thread object of that device that is alive. Its stop
  signal is the event it was created with. A running session is a live one whose stop
  signal is not set.
\<close>

definition live :: "ui_state \<Rightarrow> string \<Rightarrow> nat \<Rightarrow> bool" where
  "live ui d th = (th < length (threads ui) \<and> t_device (threads ui ! th) = d \<and> t_alive (threads ui ! th))"

definition stop_is_set :: "ui_state \<Rightarrow> nat \<Rightarrow> bool" where
  "stop_is_set ui th =
     (th < length (threads ui) \<and> t_stop (threads ui ! th) < length (events ui)
      \<and> events ui ! t_stop (threads ui ! th))"

definition running :: "ui_state \<Rightarrow> string \<Rightarrow> nat \<Rightarrow> bool" where
  "running ui d th = (live ui d th \<and> \<not> stop_is_set ui th)"

text \<open>What holds of the stores and dictionaries after any sequence of calls.\<close>

definition ui_inv :: "ui_state \<Rightarrow> bool" where
  "ui_inv ui =
     ((\<forall>d th. device_threads ui d = Some th \<longrightarrow>
          th < length (threads ui) \<and> t_device (threads ui ! th) = d
        \<and> stop_events ui d = Some (t_stop (threads ui ! th)))
    \<and> (\<forall>d ev. stop_events ui d = Some ev \<longrightarrow> ev < length (events ui))
    \<and> (\<forall>th < length (threads ui). t_stop (threads ui ! th) < length (events ui))
    \<and> (\<forall>th < length (threads ui).
          t_alive (threads ui ! th) \<and> \<not> events ui ! t_stop (threads ui ! th) \<longrightarrow>
          device_threads ui (t_device (threads ui ! th)) = Some th))"

text \<open>Device \<^verbatim>\<open>A\<close> is started twice for one minute; the second call's \<^verbatim>\<open>join(0.1)\<close> returns
  while the first worker is still in a sleep.\<close>

definition restart_run :: ui_state where
  "restart_run = run [Start ''A'' (Some 1) 0 False True, Start ''A'' (Some 1) 0 False True] ui_init"

section \<open>Discovery: \<^verbatim>\<open>AutoClicker.list_devices\<close>\<close>

text \<open>
  What discovery reads from outside:
  \<^item> \<open>mumu_devices\<close>: the devices the MuMuManager step adds (the result of
    \<^verbatim>\<open>parse_mumu_info\<close>, nothing if the manager cannot be run);
  \<^item> \<open>devices_output\<close>: the output of \<^verbatim>\<open>adb devices\<close>;
  \<^item> \<open>check_output device_id prop\<close>: \<^verbatim>\<open>subprocess.check_output\<close> of
    \<^verbatim>\<open>adb -s device_id shell getprop prop\<close>, which raises when adb fails;
  \<^item> \<open>popen_read device_id prop\<close>: \<^verbatim>\<open>os.popen(cmd).read()\<close> of the same command line,
    which returns what was printed, possibly nothing, and does not raise.
  A command line is kept as the pair of the device id and the property it asks for.
  Restarting the adb server and the \<^verbatim>\<open>adb connect\<close> attempts on the candidate ports
  return nothing the function uses and are left out.
\<close>

type_synonym device = "string \<times> string"
type_synonym cmd = "string \<times> string"

record disc_env =
  mumu_devices :: "device list"
  devices_output :: string
  check_output :: "string \<Rightarrow> string \<Rightarrow> exn + string"
  popen_read :: "string \<Rightarrow> string \<Rightarrow> string"

text \<open>\<^verbatim>\<open>s.split(c)\<close> and \<^verbatim>\<open>s.split()\<close>.\<close>

fun split_on :: "char \<Rightarrow> string \<Rightarrow> string list" where
  "split_on c [] = [] # []"
| "split_on c (x # xs) =
     (if x = c then [] # split_on c xs
      else (case split_on c xs of [] \<Rightarrow> [x] # [] | h # t \<Rightarrow> (x # h) # t))"

fun split_ws_acc :: "string \<Rightarrow> string \<Rightarrow> string list" where
  "split_ws_acc [] cur = (if cur = [] then [] else [cur])"
| "split_ws_acc (x # xs) cur =
     (if is_space x then (if cur = [] then split_ws_acc xs [] else cur # split_ws_acc xs [])
      else split_ws_acc xs (cur @ [x]))"

definition split_ws :: "string \<Rightarrow> string list" where
  "split_ws s = split_ws_acc s []"

text \<open>
  \<^verbatim>\<open>int(s)\<close> on a string; \<open>None\<close> stands for \<^verbatim>\<open>ValueError\<close>. Blanks around the number are
  dropped, one sign may come first, and the digits may be grouped by single underscores
  between two digits.
\<close>

definition is_digit :: "char \<Rightarrow> bool" where
  "is_digit c = (c \<in> set ''0123456789'')"

definition digit_value :: "char \<Rightarrow> nat" where
  "digit_value c = of_char c - 48"

fun after_digit :: "string \<Rightarrow> nat \<Rightarrow> nat option" where
  "after_digit [] acc = Some acc"
| "after_digit (c # cs) acc =
     (if is_digit c then after_digit cs (10 * acc + digit_value c)
      else if c = CHR ''_'' then
        (case cs of
           [] \<Rightarrow> None
         | d # ds \<Rightarrow> if is_digit d then after_digit ds (10 * acc + digit_value d) else None)
      else None)"

definition parse_digits :: "string \<Rightarrow> nat option" where
  "parse_digits s =
     (case s of [] \<Rightarrow> None | c # cs \<Rightarrow> if is_digit c then after_digit cs (digit_value c) else None)"

definition parse_int :: "string \<Rightarrow> int option" where
  "parse_int s =
     (case strip s of
        [] \<Rightarrow> None
      | c # cs \<Rightarrow>
          if c = CHR ''-'' then map_option (\<lambda>n. - int n) (parse_digits cs)
          else if c = CHR ''+'' then map_option int (parse_digits cs)
          else map_option int (parse_digits (c # cs)))"

definition mumu_ports :: "int list" where
  "mumu_ports = [16384, 16416, 16448, 16480, 16512, 16544]"

fun index_of :: "int \<Rightarrow> int list \<Rightarrow> nat" where
  "index_of p [] = 0"
| "index_of p (q # qs) = (if p = q then 0 else Suc (index_of p qs))"

text \<open>The mark appended to the label of a device id that starts with \<^verbatim>\<open>127.0.0.1:\<close>.
  The source's Chinese labels are written in ASCII.\<close>

definition mumu_tag :: "string \<Rightarrow> exn + string" where
  "mumu_tag device_id =
     (if take 10 device_id = ''127.0.0.1:'' then
        (case split_on (CHR '':'') device_id of
           h # p # rest \<Rightarrow>
             (case parse_int p of
                None \<Rightarrow> Inl (Raised ''ValueError'')
              | Some port \<Rightarrow>
                  Inr (if port = 16384 then '' [MuMu main]''
                       else if port \<in> set mumu_ports
                       then '' [MuMu-'' @ str_int (int (index_of port mumu_ports)) @ '']''
                       else '' [MuMu (port:'' @ str_int port @ '')]''))
         | _ \<Rightarrow> Inl (Raised ''IndexError''))
      else Inr [])"

definition model_prop :: string where
  "model_prop = ''ro.product.model''"

definition brand_prop :: string where
  "brand_prop = ''ro.product.brand''"

text \<open>
  The two identity queries of one endpoint with their handler:
  \<^verbatim>\<open>try: model_cmd = ...; model = check_output(model_cmd); brand_cmd = ...;
       brand = check_output(brand_cmd)
  except Exception: model = os.popen(model_cmd).read(); brand = os.popen(brand_cmd).read()\<close>
  (each result stripped). \<open>brand_cmd\<close> is the local variable \<^verbatim>\<open>brand_cmd\<close> as the previous
  endpoints left it, \<open>None\<close> while it is unbound: if the model query raises, the handler
  reads \<^verbatim>\<open>brand_cmd\<close> before this endpoint has assigned it. The result is the model, the
  brand, and \<^verbatim>\<open>brand_cmd\<close> afterwards.
\<close>

definition identity_queries ::
  "disc_env \<Rightarrow> cmd option \<Rightarrow> string \<Rightarrow> exn + (string \<times> string \<times> cmd option)" where
  "identity_queries E brand_cmd device_id =
     (case check_output E device_id model_prop of
        Inr m \<Rightarrow>
          (case check_output E device_id brand_prop of
             Inr b \<Rightarrow> Inr (strip m, strip b, Some (device_id, brand_prop))
           | Inl e \<Rightarrow>
               Inr (strip (popen_read E device_id model_prop),
                    strip (popen_read E device_id brand_prop),
                    Some (device_id, brand_prop)))
      | Inl e \<Rightarrow>
          (case brand_cmd of
             None \<Rightarrow> Inl (Raised ''UnboundLocalError'')
           | Some (d, p) \<Rightarrow>
               Inr (strip (popen_read E device_id model_prop), strip (popen_read E d p),
                    brand_cmd)))"

text \<open>The loop \<^verbatim>\<open>for line in lines[1:]\<close> over the lines of \<^verbatim>\<open>adb devices\<close>.\<close>

fun identify :: "disc_env \<Rightarrow> string list \<Rightarrow> cmd option \<Rightarrow> device list \<Rightarrow> exn + device list" where
  "identify E [] brand_cmd devices = Inr devices"
| "identify E (line # rest) brand_cmd devices =
     (case split_ws (strip line) of
        device_id # state # others \<Rightarrow>
          if state = ''device'' then
            (case identity_queries E brand_cmd device_id of
               Inl e \<Rightarrow> Inl e
             | Inr (model, brand, brand_cmd') \<Rightarrow>
                 (case mumu_tag device_id of
                    Inl e \<Rightarrow> Inl e
                  | Inr tag \<Rightarrow>
                      identify E rest brand_cmd'
                        (devices @ [(device_id, brand @ '' '' @ model @ tag)])))
          else identify E rest brand_cmd devices
      | _ \<Rightarrow> identify E rest brand_cmd devices)"

text \<open>The removal of repeated device ids, first occurrence kept.\<close>

fun unique_devices :: "device list \<Rightarrow> string list \<Rightarrow> device list" where
  "unique_devices [] device_ids = []"
| "unique_devices ((device_id, device_info) # ds) device_ids =
     (if device_id \<in> set device_ids then unique_devices ds device_ids
      else (device_id, device_info) # unique_devices ds (device_id # device_ids))"

text \<open>\<^verbatim>\<open>list_devices()\<close> with \<^verbatim>\<open>self.devices\<close> as \<open>cache\<close>: the list returned and
  \<^verbatim>\<open>self.devices\<close> afterwards. Any exception of the body gives the empty list.\<close>

definition list_devices_body :: "disc_env \<Rightarrow> exn + device list" where
  "list_devices_body E =
     (if mumu_devices E \<noteq> [] then Inr (mumu_devices E)
      else
        (let lines = split_on (CHR 0x0A) (strip (devices_output E)) in
         if length lines > 1 then identify E (tl lines) None [] else Inr []))"

definition list_devices :: "disc_env \<Rightarrow> device list \<Rightarrow> device list \<times> device list" where
  "list_devices E cache =
     (if cache \<noteq> [] then (cache, cache)
      else
        (case list_devices_body E of
           Inl e \<Rightarrow> ([], cache)
         | Inr devices \<Rightarrow>
             if devices = [] then ([], cache)
             else (unique_devices devices [], unique_devices devices [])))"

text \<open>The device ids that \<^verbatim>\<open>adb devices\<close> lists in the state \<^verbatim>\<open>device\<close>, and the label
  discovery gives an endpoint whose model query did not raise.\<close>

fun listed_ids :: "string list \<Rightarrow> string list" where
  "listed_ids [] = []"
| "listed_ids (line # rest) =
     (case split_ws (strip line) of
        device_id # state # others \<Rightarrow>
          if state = ''device'' then device_id # listed_ids rest else listed_ids rest
      | _ \<Rightarrow> listed_ids rest)"

definition listed :: "disc_env \<Rightarrow> string list" where
  "listed E = listed_ids (tl (split_on (CHR 0x0A) (strip (devices_output E))))"

definition label :: "disc_env \<Rightarrow> string \<Rightarrow> string" where
  "label E device_id =
     (case check_output E device_id model_prop of
        Inl e \<Rightarrow> []
      | Inr m \<Rightarrow>
          (case check_output E device_id brand_prop of
             Inr b \<Rightarrow> strip b @ '' '' @ strip m
           | Inl e \<Rightarrow> strip (popen_read E device_id brand_prop) @ '' ''
                      @ strip (popen_read E device_id model_prop))
          @ (case mumu_tag device_id of Inr tag \<Rightarrow> tag | Inl e \<Rightarrow> []))"

text \<open>
  Two endpoints are listed. The first answers both queries. The second answers the model
  query, then stops answering: the brand query raises and the two \<^verbatim>\<open>os.popen\<close> calls of
  the handler read nothing. In \<open>disc_first_down\<close> it is the first endpoint that does not
  answer at all.
\<close>

definition row_5554 :: string where
  "row_5554 = ''emulator-5554'' @ [CHR 0x09] @ ''device''"

definition row_5556 :: string where
  "row_5556 = ''emulator-5556'' @ [CHR 0x09] @ ''device''"

definition adb_devices_text :: string where
  "adb_devices_text =
     ''List of devices attached'' @ [CHR 0x0A] @ row_5554 @ [CHR 0x0A] @ row_5556 @ [CHR 0x0A]"

definition disc_brand_down :: disc_env where
  "disc_brand_down =
     \<lparr>mumu_devices = [], devices_output = adb_devices_text,
      check_output = (\<lambda>d p.
         if d = ''emulator-5554'' then Inr (if p = model_prop then ''sdk'' else ''google'')
         else if p = model_prop then Inr ''sdk'' else Inl (Raised ''CalledProcessError'')),
      popen_read = (\<lambda>d p. [])\<rparr>"

definition disc_first_down :: disc_env where
  "disc_first_down =
     \<lparr>mumu_devices = [], devices_output = adb_devices_text,
      check_output = (\<lambda>d p.
         if d = ''emulator-5556'' then Inr (if p = model_prop then ''sdk'' else ''google'')
         else Inl (Raised ''CalledProcessError'')),
      popen_read = (\<lambda>d p. [])\<rparr>"

section \<open>Observations and concrete environments\<close>

text \<open>The Euclidean distance between a matched location \<open>(x, y)\<close> and a tapped point.\<close>

definition tap_distance :: "int \<Rightarrow> int \<Rightarrow> int \<times> int \<Rightarrow> real" where
  "tap_distance x y p = sqrt (real_of_int ((fst p - x)\<^sup>2 + (snd p - y)\<^sup>2))"

text \<open>
  An environment in which everything outside works: adb answers with an empty output,
  every template file exists and is read as an image named by its path, and the search
  finds each template of \<open>hits\<close> at \<open>(100, 200)\<close> with score 0.95 and every other template
  with score 0.1. Templates are 60 wide and 40 high.
\<close>

definition env_hit :: "string list \<Rightarrow> string env" where
  "env_hit hits =
     \<lparr>subprocess = (\<lambda>d c. Inr []), numpy_ok = True, cv2_ok = True,
      path_exists = (\<lambda>p. True), imread = (\<lambda>p. Some p),
      match_template = (\<lambda>screen template.
         if template \<in> set (map (\<lambda>h. ''templates/'' @ h @ ''.png'') hits)
         then Inr (95 / 100, (100, 200))
         else Inr (1 / 10, (0, 0))),
      shape = (\<lambda>t. (40, 60))\<rparr>"

text \<open>A world around \<open>env_hit\<close>: every capture gives the frame \<open>''frame''\<close>, the random
  draws are all 0 (magnitude 5, direction 0, shortest waits), the shell's redraw returns
  normally, and the clock is printed as a number.\<close>

definition world_hit :: "string list \<Rightarrow> string list \<Rightarrow> (int \<Rightarrow> nat) \<Rightarrow> string world" where
  "world_hit hits names cost =
     \<lparr>w_env = env_hit hits, w_clicker = auto_clicker_init, w_names = names,
      w_screen = (\<lambda>t. Some ''frame''), w_cost = cost,
      w_randint = (\<lambda>t. 0), w_uniform = (\<lambda>t. 0), w_ui_raises = (\<lambda>t. False),
      w_strftime = (\<lambda>t. str_int t)\<rparr>"

text \<open>
  Three runs of the thread function, each for one minute from the clock 100000.
  \<^item> \<open>cooldown_run\<close>: only \<^verbatim>\<open>button10\<close> is on screen; the first capture takes 600 ms, every
    other outside call 50 ms; the supervisor sets the stop event at 101650.
  \<^item> \<open>lose_run\<close>: \<^verbatim>\<open>lose\<close> and \<^verbatim>\<open>button1\<close> are both on screen; nobody stops or resumes.
  \<^item> \<open>paused_run\<close>: the pause event is set from the start and never cleared.
\<close>

definition cooldown_run :: wstate where
  "cooldown_run = device_thread_func
      (world_hit [''button10''] [''button10''] (\<lambda>t. if t = 100000 then 600 else 50))
      ''A'' ''device A'' 1 (wstate_init 100000 [(101650, StopSet)] logger_init)"

definition lose_world :: "string world" where
  "lose_world = world_hit [''lose'', ''button1''] [''button1'', ''lose'', ''notupo''] (\<lambda>t. 50)"


text \<open>The trace of \<open>s'\<close> continues the trace of \<open>s\<close>.\<close>

definition extends :: "wstate \<Rightarrow> wstate \<Rightarrow> bool" where
  "extends s s' = (\<exists>evs. trace s' = trace s @ evs)"




definition paused_start :: wstate where
  "paused_start = (wstate_init 100000 [] logger_init)\<lparr>pause_event := True\<rparr>"

text \<open>The environment and the world in which every adb command fails.\<close>

definition env_adb_down :: "string env" where
  "env_adb_down = (env_hit [''button1''])\<lparr>subprocess := (\<lambda>d c. Inl (Raised ''CalledProcessError''))\<rparr>"

definition world_adb_down :: "string world" where
  "world_adb_down = (world_hit [''button1''] [''button1''] (\<lambda>t. 50))\<lparr>w_env := env_adb_down\<rparr>"

section \<open>Properties\<close>

subsection \<open>History bound\<close>

lemma log_entry_call_history:
  "history (log_entry_call e L) =
     (if length (history L) \<ge> 1000 then drop (length (history L) - 999) (history L) @ [e]
      else history L @ [e])"
  by (simp add: log_entry_call_def log_def Let_def slice_from_neg_def)

lemma log_entry_call_last:
  assumes "history L = drop (length done - 1000) done"
  shows "history (log_entry_call e L) = drop (length (done @ [e]) - 1000) (done @ [e])"
proof (cases "length done \<ge> 1000")
  case True
  then have len: "length (history L) = 1000" using assms by simp
  have s: "Suc (length done - 1000) = length done - 999"
    using True by arith
  have "drop (length (history L) - 999) (history L) = drop (length done - 999) done"
    using assms True len s by simp
  then show ?thesis using True len s
    by (simp add: log_entry_call_history)
next
  case False
  then show ?thesis using assms by (simp add: log_entry_call_history)
qed

lemma log_all_history:
  "history L = drop (length done - 1000) done \<Longrightarrow>
   history (log_all es L) = drop (length (done @ es) - 1000) (done @ es)"
proof (induction es arbitrary: L "done")
  case Nil
  then show ?case by simp
next
  case (Cons e es)
  have "history (log_entry_call e L) = drop (length (done @ [e]) - 1000) (done @ [e])"
    by (rule log_entry_call_last [OF Cons.prems])
  from Cons.IH [OF this] show ?case by simp
qed

text \<open>
  Claim C7. The history is append-only and bounded at 1000 entries, oldest evicted first:
  after publishing any sequence \<open>es\<close> of events to a fresh logger, \<^verbatim>\<open>get_history(n)\<close> for
  any \<open>n \<ge> 1000\<close> returns the most recent 1000 of them (all of them while fewer than 1000
  were published) in publish order; once 1000 or more were published the answer has
  exactly 1000 entries.
\<close>

theorem history_bound:
  assumes "1000 \<le> n"
  shows "get_history n (log_all es logger_init) = drop (length es - 1000) es
       \<and> length (get_history n (log_all es logger_init)) = min 1000 (length es)"
proof -
  have h: "history (log_all es logger_init) = drop (length es - 1000) es"
    using log_all_history [of logger_init "[]" es] by (simp add: logger_init_def)
  have "length (drop (length es - 1000) es) \<le> nat n"
    using assms by simp
  then have "get_history n (log_all es logger_init) = drop (length es - 1000) es"
    using assms h by (simp add: get_history_def slice_from_neg_def)
  then show ?thesis by auto
qed

theorem history_bound_witness:
  "get_history 2000 (log_all (map mk_entry [0..<1500]) logger_init) = map mk_entry [500..<1500]
 \<and> length (get_history 2000 (log_all (map mk_entry [0..<1500]) logger_init)) = 1000"
proof -
  have n: "(1000::int) \<le> 2000" by simp
  have d: "drop (length (map mk_entry [0..<1500]) - 1000) (map mk_entry [0..<1500])
         = map mk_entry [500..<1500]"
    by (simp add: drop_map)
  show ?thesis
    using history_bound [OF n, of "map mk_entry [0..<1500]"] d by simp
qed

subsection \<open>Template matching\<close>

lemma find_template_Some_iff:
  "find_template ac E n screen = Some p \<longleftrightarrow>
     (\<exists>template max_val max_loc.
        path_exists E (template_path ac n) \<and> cv2_ok E \<and> numpy_ok E
      \<and> imread E (template_path ac n) = Some template
      \<and> match_template E screen template = Inr (max_val, max_loc)
      \<and> max_val \<ge> threshold ac
      \<and> p = (fst max_loc + snd (shape E template) div 2,
             snd max_loc + fst (shape E template) div 2))"
  unfolding find_template_def find_template_body_def
  by (auto simp: Let_def split: option.splits sum.splits prod.splits)

lemma find_template_raise: "find_template_body ac E n screen = Inl e \<Longrightarrow> find_template ac E n screen = None"
  by (simp add: find_template_def)

text \<open>
  Claim C8. \<^verbatim>\<open>find_template\<close> returns a location exactly when the template file exists
  and is readable and the best correlation score is at least the threshold, and the
  location is then the corner of the best match plus half the template's width and
  height; a missing file, an unreadable file and every exception raised inside (a failed
  import, an error of the search) give \<open>None\<close>.
\<close>

theorem find_template_spec:
  "(find_template ac E n screen = Some p \<longleftrightarrow>
      (\<exists>template max_val max_loc.
         path_exists E (template_path ac n) \<and> cv2_ok E \<and> numpy_ok E
       \<and> imread E (template_path ac n) = Some template
       \<and> match_template E screen template = Inr (max_val, max_loc)
       \<and> max_val \<ge> threshold ac
       \<and> p = (fst max_loc + snd (shape E template) div 2,
              snd max_loc + fst (shape E template) div 2)))
 \<and> (\<not> path_exists E (template_path ac n) \<longrightarrow> find_template ac E n screen = None)
 \<and> (imread E (template_path ac n) = None \<longrightarrow> find_template ac E n screen = None)
 \<and> (\<forall>e. find_template_body ac E n screen = Inl e \<longrightarrow> find_template ac E n screen = None)"
proof -
  have a: "\<not> path_exists E (template_path ac n) \<longrightarrow> find_template ac E n screen = None"
    by (simp add: find_template_def find_template_body_def)
  have b: "imread E (template_path ac n) = None \<longrightarrow> find_template ac E n screen = None"
    by (simp add: find_template_def find_template_body_def)
  show ?thesis
    using a b find_template_Some_iff [of ac E n screen p] find_template_raise [of ac E n screen]
    by blast
qed

lemma find_template_env_hit:
  "find_template auto_clicker_init (env_hit hits) n scr
     = (if n \<in> set hits then Some (130, 220) else None)"
  by (auto simp: find_template_def find_template_body_def env_hit_def auto_clicker_init_def
      template_path_def)

theorem find_template_spec_witness:
  "find_template auto_clicker_init (env_hit [''button1'']) ''button1'' ''frame'' = Some (130, 220)
 \<and> find_template auto_clicker_init ((env_hit [''button1''])\<lparr>path_exists := (\<lambda>p. False)\<rparr>)
       ''button1'' ''frame'' = None
 \<and> find_template auto_clicker_init ((env_hit [''button1''])\<lparr>imread := (\<lambda>p. None)\<rparr>)
       ''button1'' ''frame'' = None
 \<and> find_template auto_clicker_init
       ((env_hit [''button1''])\<lparr>match_template := (\<lambda>s t. Inl (Raised ''cv2.error''))\<rparr>)
       ''button1'' ''frame'' = None"
proof -
  let ?ac = auto_clicker_init and ?E = "env_hit [''button1'']"
  have 1: "path_exists ?E (template_path ?ac ''button1'') \<and> cv2_ok ?E \<and> numpy_ok ?E
      \<and> imread ?E (template_path ?ac ''button1'') = Some ''templates/button1.png''
      \<and> match_template ?E ''frame'' ''templates/button1.png'' = Inr (95 / 100, (100, 200))
      \<and> 95 / 100 \<ge> threshold ?ac
      \<and> (130, 220) = (fst (100, 200) + snd (shape ?E ''templates/button1.png'') div 2,
             snd (100 :: int, 200 :: int) + fst (shape ?E ''templates/button1.png'') div 2)"
    by (simp add: env_hit_def auto_clicker_init_def template_path_def)
  have c1: "find_template ?ac ?E ''button1'' ''frame'' = Some (130, 220)"
    using find_template_spec [of ?ac ?E "''button1''" "''frame''" "(130, 220)"] 1 by blast
  have c2: "find_template ?ac (?E\<lparr>path_exists := (\<lambda>p. False)\<rparr>) ''button1'' ''frame'' = None"
    using find_template_spec [of ?ac "?E\<lparr>path_exists := (\<lambda>p. False)\<rparr>" "''button1''" "''frame''" "(0, 0)"]
    by simp
  have c3: "find_template ?ac (?E\<lparr>imread := (\<lambda>p. None)\<rparr>) ''button1'' ''frame'' = None"
    using find_template_spec [of ?ac "?E\<lparr>imread := (\<lambda>p. None)\<rparr>" "''button1''" "''frame''" "(0, 0)"]
    by simp
  have b4: "find_template_body ?ac (?E\<lparr>match_template := (\<lambda>s t. Inl (Raised ''cv2.error''))\<rparr>)
              ''button1'' ''frame'' = Inl (Raised ''cv2.error'')"
    by (simp add: find_template_body_def env_hit_def)
  have c4: "find_template ?ac (?E\<lparr>match_template := (\<lambda>s t. Inl (Raised ''cv2.error''))\<rparr>)
              ''button1'' ''frame'' = None"
    using find_template_spec [of ?ac "?E\<lparr>match_template := (\<lambda>s t. Inl (Raised ''cv2.error''))\<rparr>"
        "''button1''" "''frame''" "(0, 0)"] b4
    by blast
  show ?thesis using c1 c2 c3 c4 by blast
qed

subsection \<open>The randomized click offset\<close>

lemma py_int_abs_le: "\<bar>real_of_int (py_int r)\<bar> \<le> \<bar>r\<bar>"
  unfolding py_int_def by (auto; linarith)

lemma py_int_err: "\<bar>r - real_of_int (py_int r)\<bar> < 1"
  unfolding py_int_def by (auto; linarith)

lemma randint_range: "a \<le> b \<Longrightarrow> a \<le> randint a b raw \<and> randint a b raw \<le> b"
  unfolding randint_def
  using pos_mod_bound [of "b - a + 1" "int raw"] pos_mod_sign [of "b - a + 1" "int raw"]
  by auto

lemma uniform_range: "a < b \<Longrightarrow> a \<le> uniform a b raw \<and> uniform a b raw < b"
proof -
  assume ab: "a < b"
  have f: "0 \<le> frac raw" "frac raw < 1" by (simp_all add: frac_lt_1)
  have "(b - a) * frac raw < (b - a) * 1" using ab f by (intro mult_strict_left_mono) auto
  moreover have "0 \<le> (b - a) * frac raw" using ab f by simp
  ultimately show ?thesis unfolding uniform_def by auto
qed

lemma dist_upper:
  fixes a b :: real
  assumes "\<bar>dx\<bar> \<le> \<bar>a\<bar>" "\<bar>dy\<bar> \<le> \<bar>b\<bar>"
  shows "sqrt (dx\<^sup>2 + dy\<^sup>2) \<le> sqrt (a\<^sup>2 + b\<^sup>2)"
proof -
  have "dx\<^sup>2 \<le> a\<^sup>2" using assms(1) by (simp add: abs_le_square_iff)
  moreover have "dy\<^sup>2 \<le> b\<^sup>2" using assms(2) by (simp add: abs_le_square_iff)
  ultimately show ?thesis by simp
qed

lemma dist_lower:
  fixes a b :: real
  assumes "\<bar>a - dx\<bar> < 1" "\<bar>b - dy\<bar> < 1"
  shows "sqrt (a\<^sup>2 + b\<^sup>2) < sqrt (dx\<^sup>2 + dy\<^sup>2) + sqrt 2"
proof -
  have "(a - dx)\<^sup>2 < 1" using assms(1) by (simp add: abs_square_less_1)
  moreover have "(b - dy)\<^sup>2 < 1" using assms(2) by (simp add: abs_square_less_1)
  ultimately have e: "sqrt ((a - dx)\<^sup>2 + (b - dy)\<^sup>2) < sqrt 2"
    by (intro real_sqrt_less_mono) linarith
  have t: "sqrt ((dx + (a - dx))\<^sup>2 + (dy + (b - dy))\<^sup>2)
        \<le> sqrt (dx\<^sup>2 + dy\<^sup>2) + sqrt ((a - dx)\<^sup>2 + (b - dy)\<^sup>2)"
    by (rule real_sqrt_sum_squares_triangle_ineq)
  have "dx + (a - dx) = a" "dy + (b - dy) = b" by simp_all
  with t have "sqrt (a\<^sup>2 + b\<^sup>2) \<le> sqrt (dx\<^sup>2 + dy\<^sup>2) + sqrt ((a - dx)\<^sup>2 + (b - dy)\<^sup>2)"
    by simp
  with e show ?thesis by linarith
qed

lemma polar_norm: "0 \<le> r \<Longrightarrow> sqrt ((r * cos t)\<^sup>2 + (r * sin t)\<^sup>2) = r"
proof -
  assume r: "0 \<le> (r::real)"
  have "(r * cos t)\<^sup>2 + (r * sin t)\<^sup>2 = r\<^sup>2 * ((cos t)\<^sup>2 + (sin t)\<^sup>2)"
    by (simp only: power_mult_distrib distrib_left)
  also have "\<dots> = r\<^sup>2" by (simp only: sin_cos_squared_add2 mult_1_right)
  finally have eq: "(r * cos t)\<^sup>2 + (r * sin t)\<^sup>2 = r\<^sup>2" .
  show ?thesis unfolding eq using r by simp
qed

lemma click_point_distance:
  assumes "0 \<le> offset"
  shows "tap_distance x y (click_point x y offset angle) \<le> real_of_int offset"
    and "real_of_int offset - sqrt 2 < tap_distance x y (click_point x y offset angle)"
proof -
  let ?a = "real_of_int offset * cos angle" and ?b = "real_of_int offset * sin angle"
  have d: "tap_distance x y (click_point x y offset angle)
         = sqrt ((real_of_int (py_int ?a))\<^sup>2 + (real_of_int (py_int ?b))\<^sup>2)"
    by (simp add: tap_distance_def click_point_def Let_def)
  have n: "sqrt (?a\<^sup>2 + ?b\<^sup>2) = real_of_int offset"
    using assms by (intro polar_norm) simp
  show "tap_distance x y (click_point x y offset angle) \<le> real_of_int offset"
    using dist_upper [OF py_int_abs_le [of ?a] py_int_abs_le [of ?b]] d n by simp
  show "real_of_int offset - sqrt 2 < tap_distance x y (click_point x y offset angle)"
    using dist_lower [OF py_int_err [of ?a] py_int_err [of ?b]] d n by simp
qed

lemma floor_5_cos45: "\<lfloor>5 * (sqrt 2 / 2)\<rfloor> = (3::int)"
proof -
  have lo: "6 / 5 \<le> sqrt 2" by (rule real_le_rsqrt) (simp add: power2_eq_square)
  have hi: "sqrt 2 < 8 / 5" by (rule real_less_lsqrt) (simp_all add: power2_eq_square)
  show ?thesis using lo hi by (intro floor_unique) auto
qed

lemma click_point_45:
  "click_point 100 200 (randint 5 30 0) (uniform 0 (2 * pi) (1 / 8)) = (103, 203)"
proof -
  have f: "frac (1 / 8 :: real) = 1 / 8" by (simp add: frac_eq)
  have a: "uniform 0 (2 * pi) (1 / 8) = pi / 4" by (simp add: uniform_def f)
  have o: "randint 5 30 0 = 5" by (simp add: randint_def)
  show ?thesis
    unfolding a o click_point_def Let_def py_int_def
    using floor_5_cos45 by (simp add: cos_45 sin_45)
qed

lemma random_click_calls:
  "numpy_ok E \<Longrightarrow>
   random_click E d x y raw_i raw_u =
     (True, [(d, ''shell input tap ''
                 @ str_int (fst (click_point x y (randint 5 30 raw_i) (uniform 0 (2 * pi) raw_u)))
                 @ '' ''
                 @ str_int (snd (click_point x y (randint 5 30 raw_i) (uniform 0 (2 * pi) raw_u))))])"
  by (simp add: random_click_def random_click_body_def tap_def tap_body_def
      execute_adb_command_def Let_def split: prod.splits sum.splits)

text \<open>
  Claim C4, as stated, fails: the offset components are truncated to whole pixels, so the
  tapped point can be nearer to the match than the drawn magnitude. With the magnitude 5
  and the direction \<open>\<pi>/4\<close> the tap goes to \<open>(x + 3, y + 3)\<close>, at distance \<open>\<surd>18 < 5\<close>.
\<close>

theorem offset_bounds_counterexample:
  "random_click (env_hit [''button1'']) ''A'' 100 200 0 (1 / 8)
     = (True, [(''A'', ''shell input tap 103 203'')])
 \<and> click_point 100 200 (randint 5 30 0) (uniform 0 (2 * pi) (1 / 8)) = (103, 203)
 \<and> tap_distance 100 200 (103, 203) < 5"
proof -
  have "sqrt 18 < 5" by (rule real_less_lsqrt) simp_all
  then have d: "tap_distance 100 200 (103, 203) < 5" by (simp add: tap_distance_def)
  have n: "numpy_ok (env_hit [''button1''])" by (simp add: env_hit_def)
  have "random_click (env_hit [''button1'']) ''A'' 100 200 0 (1 / 8)
          = (True, [(''A'', ''shell input tap 103 203'')])"
    unfolding random_click_calls [OF n] click_point_45
    by (simp add: str_int_def str_nat.simps)
  then show ?thesis using d click_point_45 by simp
qed

text \<open>
  Claim C4, amended. For every randomized click the drawn magnitude is a whole number of
  \<open>[5, 30]\<close> and the drawn direction lies in \<open>[0, 2\<pi>)\<close>; the tapped point is the match
  plus the offset's two components, each truncated toward zero; so its distance from the
  match is at most the drawn magnitude, hence at most 30, and more than the magnitude minus
  \<open>\<surd>2\<close>, hence more than \<open>5 - \<surd>2\<close>. (How the draws are distributed is not part of the
  statement: they range over all raw values.)
\<close>

theorem offset_bounds_truncated:
  "5 \<le> randint 5 30 raw_i \<and> randint 5 30 raw_i \<le> 30
 \<and> 0 \<le> uniform 0 (2 * pi) raw_u \<and> uniform 0 (2 * pi) raw_u < 2 * pi
 \<and> tap_distance x y (click_point x y (randint 5 30 raw_i) (uniform 0 (2 * pi) raw_u))
      \<le> real_of_int (randint 5 30 raw_i)
 \<and> real_of_int (randint 5 30 raw_i) - sqrt 2
      < tap_distance x y (click_point x y (randint 5 30 raw_i) (uniform 0 (2 * pi) raw_u))
 \<and> tap_distance x y (click_point x y (randint 5 30 raw_i) (uniform 0 (2 * pi) raw_u)) \<le> 30
 \<and> 5 - sqrt 2 < tap_distance x y (click_point x y (randint 5 30 raw_i) (uniform 0 (2 * pi) raw_u))"
proof -
  let ?o = "randint 5 30 raw_i" and ?a = "uniform 0 (2 * pi) raw_u"
  have r: "5 \<le> ?o \<and> ?o \<le> 30" by (rule randint_range) simp
  have u: "0 \<le> ?a \<and> ?a < 2 * pi" by (rule uniform_range) simp
  have o0: "0 \<le> ?o" using r by simp
  have up: "tap_distance x y (click_point x y ?o ?a) \<le> real_of_int ?o"
    by (rule click_point_distance(1) [OF o0])
  have lo: "real_of_int ?o - sqrt 2 < tap_distance x y (click_point x y ?o ?a)"
    by (rule click_point_distance(2) [OF o0])
  have r': "5 \<le> real_of_int ?o \<and> real_of_int ?o \<le> 30" using r by simp
  have "tap_distance x y (click_point x y ?o ?a) \<le> 30" using up r' by linarith
  moreover have "5 - sqrt 2 < tap_distance x y (click_point x y ?o ?a)" using lo r' by linarith
  ultimately show ?thesis using r u up lo by blast
qed

theorem offset_bounds_truncated_witness:
  "tap_distance 100 200 (click_point 100 200 (randint 5 30 0) (uniform 0 (2 * pi) (1 / 8))) \<le> 30
 \<and> 5 - sqrt 2
    < tap_distance 100 200 (click_point 100 200 (randint 5 30 0) (uniform 0 (2 * pi) (1 / 8)))
 \<and> click_point 100 200 (randint 5 30 0) (uniform 0 (2 * pi) (1 / 8)) = (103, 203)"
  using offset_bounds_truncated [of 0 "1 / 8" 100 200] click_point_45 by simp

subsection \<open>The worker: evaluation in the concrete worlds\<close>

lemma world_hit_sel:
  "w_env (world_hit hits names cost) = env_hit hits"
  "w_clicker (world_hit hits names cost) = auto_clicker_init"
  "w_names (world_hit hits names cost) = names"
  "w_screen (world_hit hits names cost) t = Some ''frame''"
  "w_cost (world_hit hits names cost) = cost"
  "w_randint (world_hit hits names cost) t = 0"
  "w_uniform (world_hit hits names cost) t = 0"
  "w_ui_raises (world_hit hits names cost) t = False"
  "w_strftime (world_hit hits names cost) t = str_int t"
  by (simp_all add: world_hit_def)

lemma random_click_env_hit:
  "random_click ((env_hit hits)\<lparr>subprocess := f\<rparr>) ''A'' 130 220 0 0
     = (True, [(''A'', ''shell input tap 135 220'')])"
  by (simp add: random_click_def random_click_body_def env_hit_def randint_def uniform_def
      click_point_def py_int_def tap_def tap_body_def execute_adb_command_def
      str_int_def str_nat.simps Let_def split: sum.splits)

lemma random_click_env_hit': 
  "random_click (env_hit hits) ''A'' 130 220 0 0 = (True, [(''A'', ''shell input tap 135 220'')])"
  using random_click_env_hit [where hits = hits and f = "\<lambda>d c. Inr []"] by (simp add: env_hit_def)

lemmas worker_eval = device_thread_func_def wstate_init_def worker_loop.simps pass_def
  iteration_def on_match_def on_button10_def on_button7_def on_other_button_def
  abort_block_def queue_put_def random_delay_def uniform_ms_def uniform_def
  get_screen_def find_def click_def outside_def advance_def wlog_def sync_def sleep_def
  click_cooldown_def Let_def world_hit_sel find_template_env_hit random_click_env_hit'

subsection \<open>The worker: what the supervisor's commands and the log calls leave alone\<close>

lemma click_times_append: "click_times (xs @ ys) = click_times xs @ click_times ys"
  by (induction xs rule: click_times.induct) simp_all

lemma find_names_append: "find_names (xs @ ys) = find_names xs @ find_names ys"
  by (induction xs rule: find_names.induct) simp_all

lemma paused_loop:
  assumes "pause_event s" "\<not> stop_event s" "supervisor s = []"
  shows "worker_loop w d i e s =
           s\<lparr>now := (if now s < e then now s + 1000 * ((e - now s + 999) div 1000) else now s)\<rparr>"
  using assms
proof (induction "nat (e - now s)" arbitrary: s rule: less_induct)
  case less
  have sy: "sync s = s" using less.prems by (simp add: sync_idle)
  show ?case
  proof (cases "now s < e")
    case False
    then show ?thesis using sy less.prems by (subst worker_loop.simps) simp
  next
    case True
    let ?s1 = "sleep 1000 s"
    have p: "pass w d i s = (True, ?s1)" using less.prems by (simp add: pass_def)
    have st: "worker_loop w d i e s = worker_loop w d i e ?s1"
      using sy True less.prems p by (subst worker_loop.simps) simp
    have m: "nat (e - now ?s1) < nat (e - now s)" using True by simp
    have pr: "pause_event ?s1" "\<not> stop_event ?s1" "supervisor ?s1 = []"
      using less.prems by (simp_all add: sleep_def advance_idle)
    have ih: "worker_loop w d i e ?s1 =
           ?s1\<lparr>now := (if now ?s1 < e then now ?s1 + 1000 * ((e - now ?s1 + 999) div 1000) else now ?s1)\<rparr>"
      by (rule less.hyps [OF m pr])
    have ar: "(if now s + 1000 < e then now s + 1000 + 1000 * ((e - (now s + 1000) + 999) div 1000) else now s + 1000)
            = now s + 1000 * ((e - now s + 999) div 1000)"
    proof -
      have d: "(e - now s + 999) div 1000 = (e - now s - 1) div 1000 + 1"
        using div_add_self2 [of "1000 :: int" "e - now s - 1"] by simp
      show ?thesis
      proof (cases "now s + 1000 < e")
        case True
        then show ?thesis using d by simp
      next
        case False
        then have "(e - now s + 999) div 1000 = 1" using \<open>now s < e\<close> by simp
        then show ?thesis using False by simp
      qed
    qed
    have upd: "\<And>X. ?s1\<lparr>now := X\<rparr> = s\<lparr>now := X\<rparr>"
      using less.prems by (simp add: sleep_def advance_idle)
    have n1: "now ?s1 = now s + 1000" by simp
    have "worker_loop w d i e s =
        s\<lparr>now := (if now s + 1000 < e then now s + 1000 + 1000 * ((e - (now s + 1000) + 999) div 1000)
                  else now s + 1000)\<rparr>"
      unfolding st ih upd n1 ..
    also have "\<dots> = s\<lparr>now := now s + 1000 * ((e - now s + 999) div 1000)\<rparr>"
      by (simp only: ar)
    finally show ?thesis using True by simp
  qed
qed

subsection \<open>A paused worker still ends with its planned duration\<close>

text \<open>
  Claim C9. A worker whose pause event is set and which is neither stopped nor resumed
  leaves its loop: the loop condition is read again after every second of sleep, so the
  loop ends within a second after the end time, with no capture, search or click made
  meanwhile; and the end time is the thread's start time plus the planned duration, so
  the thread function started paused returns within a second after that.
\<close>

theorem paused_worker_exits:
  assumes "pause_event s" "\<not> stop_event s" "supervisor s = []"
  shows "(now s < end_time \<longrightarrow>
            end_time \<le> now (worker_loop w d i end_time s)
          \<and> now (worker_loop w d i end_time s) < end_time + 1000)
       \<and> trace (worker_loop w d i end_time s) = trace s
       \<and> (0 < duration \<longrightarrow>
            now s + duration * 60000 \<le> now (device_thread_func w d i duration s)
          \<and> now (device_thread_func w d i duration s) < now s + duration * 60000 + 1000
          \<and> trace (device_thread_func w d i duration s) = trace s)"
proof -
  have a: "e \<le> now (worker_loop w d i e s') \<and> now (worker_loop w d i e s') < e + 1000"
    if "pause_event s'" "\<not> stop_event s'" "supervisor s' = []" "now s' < e" for s' e
  proof -
    have m: "0 \<le> (e - now s' + 999) mod 1000" "(e - now s' + 999) mod 1000 < 1000"
      by simp_all
    have q: "e - now s' + 999 = 1000 * ((e - now s' + 999) div 1000) + (e - now s' + 999) mod 1000"
      by simp
    have "e - now s' \<le> 1000 * ((e - now s' + 999) div 1000)
        \<and> 1000 * ((e - now s' + 999) div 1000) < e - now s' + 1000"
      using m q by linarith
    then show ?thesis unfolding paused_loop [OF that(1,2,3)] using that(4) by simp
  qed
  have b: "trace (worker_loop w d i e s') = trace s'"
    if "pause_event s'" "\<not> stop_event s'" "supervisor s' = []" for s' e
    unfolding paused_loop [OF that] by simp
  let ?s2 = "(wlog w i ''thread started'' Info s)\<lparr>last_log_time := 0, last_click_time := 0\<rparr>"
  have p2: "pause_event ?s2" "\<not> stop_event ?s2" "supervisor ?s2 = []"
    using assms by (simp_all add: wlog_def)
  have n2: "now ?s2 = now s" "trace ?s2 = trace s" by (simp_all add: wlog_def)
  have d: "now (device_thread_func w d i duration s) = now (worker_loop w d i (now s + duration * 60000) ?s2)"
    "trace (device_thread_func w d i duration s) = trace (worker_loop w d i (now s + duration * 60000) ?s2)"
    by (simp_all add: device_thread_func_def Let_def wlog_def)
  have c: "0 < duration \<longrightarrow>
            now s + duration * 60000 \<le> now (device_thread_func w d i duration s)
          \<and> now (device_thread_func w d i duration s) < now s + duration * 60000 + 1000
          \<and> trace (device_thread_func w d i duration s) = trace s"
  proof
    assume "0 < duration"
    then have lt: "now ?s2 < now s + duration * 60000" using n2 by simp
    show "now s + duration * 60000 \<le> now (device_thread_func w d i duration s)
          \<and> now (device_thread_func w d i duration s) < now s + duration * 60000 + 1000
          \<and> trace (device_thread_func w d i duration s) = trace s"
      unfolding d using a [OF p2 lt] b [OF p2] n2 by simp
  qed
  show ?thesis using a [OF assms] b [OF assms] c by blast
qed

theorem paused_worker_exits_witness:
  "pause_event paused_start \<and> \<not> stop_event paused_start \<and> supervisor paused_start = []
 \<and> 160000 \<le> now (device_thread_func (world_hit [''button1''] [''button1''] (\<lambda>t. 50))
                     ''A'' ''device A'' 1 paused_start)
 \<and> now (device_thread_func (world_hit [''button1''] [''button1''] (\<lambda>t. 50))
           ''A'' ''device A'' 1 paused_start) < 161000
 \<and> trace (device_thread_func (world_hit [''button1''] [''button1''] (\<lambda>t. 50))
           ''A'' ''device A'' 1 paused_start) = []"
proof -
  have h: "pause_event paused_start" "\<not> stop_event paused_start" "supervisor paused_start = []"
    by (simp_all add: paused_start_def wstate_init_def)
  have n: "now paused_start = 100000" "trace paused_start = []"
    by (simp_all add: paused_start_def wstate_init_def)
  show ?thesis
    using paused_worker_exits [OF h, of 0 "world_hit [''button1''] [''button1''] (\<lambda>t. 50)"
        "''A''" "''device A''" 1] h n
    by simp
qed

subsection \<open>The click cooldown\<close>

text \<open>
  Claim C2 on \<open>cooldown_run\<close>. The cooldown test of a pass compares the clock read at the
  start of the pass with \<^verbatim>\<open>last_click_time\<close>, and a click stores in \<^verbatim>\<open>last_click_time\<close>
  the clock read at the start of its pass, not the time of the click. After a click on
  \<^verbatim>\<open>button10\<close> there is no \<^verbatim>\<open>random_delay\<close>, only half a second of sleep and the check for
  \<^verbatim>\<open>notupo\<close>. In \<open>cooldown_run\<close> the first pass starts at 100000 and taps at 100750; the
  second pass starts at 101400, which is 1400 ms after 100000, so the cooldown test lets it
  through, and it taps at 101600: two consecutive taps of one device 850 ms apart.
\<close>

theorem cooldown_gap_on_button10:
  "click_times (trace cooldown_run) = [100750, 101600]
 \<and> 101600 - 100750 < click_cooldown
 \<and> trace cooldown_run =
     [Capture 100000, Find 100600 ''lose'', Find 100650 ''notupo'', Find 100700 ''button10'',
      Click 100750 [(''A'', ''shell input tap 135 220'')], Capture 101300, Find 101350 ''notupo'',
      Capture 101400, Find 101450 ''lose'', Find 101500 ''notupo'', Find 101550 ''button10'',
      Click 101600 [(''A'', ''shell input tap 135 220'')], Capture 102150, Find 102200 ''notupo'']"
proof -
  have t: "trace cooldown_run =
     [Capture 100000, Find 100600 ''lose'', Find 100650 ''notupo'', Find 100700 ''button10'',
      Click 100750 [(''A'', ''shell input tap 135 220'')], Capture 101300, Find 101350 ''notupo'',
      Capture 101400, Find 101450 ''lose'', Find 101500 ''notupo'', Find 101550 ''button10'',
      Click 101600 [(''A'', ''shell input tap 135 220'')], Capture 102150, Find 102200 ''notupo'']"
    unfolding cooldown_run_def by (simp add: worker_eval)
  show ?thesis unfolding t by (simp add: click_cooldown_def)
qed

subsection \<open>Abort triggers\<close>

lemma abort_block_result:
  "abort_block w i m q s =
     (if w_ui_raises w (now s) then Raise else Break,
      s\<lparr>pause_event := True,
        status_logger := (log (w_strftime w (now s)) i m Warning (status_logger s))
           \<lparr>message_queue := message_queue (status_logger s)
               @ [\<lparr>le_time = w_strftime w (now s), le_device = i, le_message = m, le_level = Warning\<rparr>,
                  \<lparr>le_time = w_strftime w (now s), le_device = i, le_message = q, le_level = Warning\<rparr>]\<rparr>\<rparr>)"
  by (simp add: abort_block_def wlog_def queue_put_def log_def Let_def)

lemma iteration_lose:
  assumes "w_screen w (now s) = Some scr"
    "find_template (w_clicker w) (w_env w) ''lose'' scr \<noteq> None"
  shows "iteration w d i s =
     abort_block w i ''lose detected'' ''lose detected, paused''
       (outside w (Find (now (outside w (Capture (now s)) s)) ''lose'')
          (outside w (Capture (now s)) s))"
  using assms by (simp add: iteration_def get_screen_def find_def Let_def)

lemma iteration_notupo:
  assumes "w_screen w (now s) = Some scr"
    "find_template (w_clicker w) (w_env w) ''lose'' scr = None"
    "find_template (w_clicker w) (w_env w) ''notupo'' scr \<noteq> None"
  shows "iteration w d i s =
     abort_block w i ''notupo detected'' ''notupo detected, paused''
       (outside w (Find (now (outside w (Find (now (outside w (Capture (now s)) s)) ''lose'')
          (outside w (Capture (now s)) s))) ''notupo'')
       (outside w (Find (now (outside w (Capture (now s)) s)) ''lose'')
          (outside w (Capture (now s)) s)))"
  using assms by (simp add: iteration_def get_screen_def find_def Let_def)












subsection \<open>The trace only grows\<close>

lemma extends_refl: "extends s s"
  by (simp add: extends_def)

lemma extends_trans: "extends s s' \<Longrightarrow> extends s' s'' \<Longrightarrow> extends s s''"
  by (auto simp: extends_def)

lemma extends_same: "trace s' = trace s \<Longrightarrow> extends s s'"
  by (simp add: extends_def)

lemma extends_outside: "extends s (outside w ev s)"
  by (simp add: extends_def outside_fields)

lemma extends_get_screen: "get_screen w s = (r, s') \<Longrightarrow> extends s s'"
  by (auto simp: get_screen_def extends_outside)

lemma extends_find: "find w n scr s = (r, s') \<Longrightarrow> extends s s'"
  by (auto simp: find_def extends_outside)

lemma extends_click: "click w d x y s = (r, s') \<Longrightarrow> extends s s'"
  by (auto simp: click_def extends_outside split: prod.splits)

lemma trace_simple [simp]:
  "trace (sleep ms s) = trace s" "trace (wlog w d m l s) = trace s"
  "trace (queue_put e s) = trace s" "trace (random_delay w lo hi s) = trace s"
  by (simp_all add: sleep_fields wlog_def queue_put_def random_delay_def)

lemma extends_abort_block: "abort_block w i m q s = (c, s') \<Longrightarrow> extends s s'"
  by (auto simp: abort_block_result extends_def)

lemma extends_on_button10:
  assumes "on_button10 w d i ct x y s = (c, clicked, s')"
  shows "extends s s'"
proof -
  obtain ok s2 where c: "click w d x y s = (ok, s2)" by fastforce
  have e2: "extends s s2" by (rule extends_click [OF c])
  show ?thesis
  proof (cases ok)
    case False
    then show ?thesis using assms c e2 by (simp add: on_button10_def)
  next
    case True
    let ?s4 = "sleep 500 ((wlog w i ''clicked button10'' Info s2)\<lparr>last_click_time := ct\<rparr>)"
    have e4: "extends s ?s4" using e2 by (simp add: extends_def)
    obtain cs s5 where g: "get_screen w ?s4 = (cs, s5)" by fastforce
    have e5: "extends s s5" using e4 extends_get_screen [OF g] by (rule extends_trans)
    show ?thesis
    proof (cases cs)
      case None
      then show ?thesis using assms c True g e5 by (simp add: on_button10_def Let_def)
    next
      case (Some fr)
      obtain p s6 where f: "find w ''notupo'' fr s5 = (p, s6)" by fastforce
      have e6: "extends s s6" using e5 extends_find [OF f] by (rule extends_trans)
      show ?thesis
      proof (cases p)
        case None
        then show ?thesis using assms c True g Some f e6 by (simp add: on_button10_def Let_def)
      next
        case (Some xy)
        obtain c7 s7 where a: "abort_block w i ''notupo detected after clicking button10''
                                ''notupo detected, paused'' s6 = (c7, s7)" by fastforce
        have "extends s s7" using e6 extends_abort_block [OF a] by (rule extends_trans)
        then show ?thesis using assms c True g \<open>cs = Some fr\<close> f Some a
          by (simp add: on_button10_def Let_def)
      qed
    qed
  qed
qed

lemma extends_on_button7:
  assumes "on_button7 w d i ct x y s = (c, clicked, s')"
  shows "extends s s'"
proof -
  let ?s3 = "sleep (uniform_ms w 8000 10000 s)
      (wlog w i (''button7 detected, clicking after ms '' @ str_int (int (uniform_ms w 8000 10000 s))) Info s)"
  obtain ok s4 where c: "click w d x y ?s3 = (ok, s4)" by fastforce
  have "extends s ?s3" by (simp add: extends_def)
  then have e4: "extends s s4" using extends_click [OF c] by (rule extends_trans)
  then have "extends s (random_delay w 1000 3000 ((wlog w i ''clicked button7'' Info s4)\<lparr>last_click_time := ct\<rparr>))"
    by (simp add: extends_def)
  then show ?thesis using assms c e4 by (cases ok) (auto simp: on_button7_def Let_def)
qed

lemma extends_on_other_button:
  assumes "on_other_button w d i ct n x y s = (c, clicked, s')"
  shows "extends s s'"
proof -
  obtain ok s2 where c: "click w d x y s = (ok, s2)" by fastforce
  have e2: "extends s s2" by (rule extends_click [OF c])
  then have "extends s (random_delay w 1000 3000 ((wlog w i (''clicked '' @ n) Info s2)\<lparr>last_click_time := ct\<rparr>))"
    by (simp add: extends_def)
  then show ?thesis using assms c e2 by (cases ok) (auto simp: on_other_button_def Let_def)
qed

lemma extends_on_match:
  assumes "on_match w d i ct v n x y s = (c, clicked, s')"
  shows "extends s s'"
proof -
  define s1 where "s1 = (if v then (wlog w i (''found button '' @ n) Info s)\<lparr>last_log_time := ct\<rparr> else s)"
  have n1: "extends s s1" by (simp add: s1_def extends_def)
  have "on_button10 w d i ct x y s1 = (c, clicked, s')
      \<or> on_button7 w d i ct x y s1 = (c, clicked, s')
      \<or> on_other_button w d i ct n x y s1 = (c, clicked, s')"
    using assms unfolding on_match_def Let_def s1_def by (simp split: if_splits)
  then have "extends s1 s'"
    using extends_on_button10 [of w d i ct x y s1 c clicked s']
      extends_on_button7 [of w d i ct x y s1 c clicked s']
      extends_on_other_button [of w d i ct n x y s1 c clicked s'] by auto
  with n1 show ?thesis by (rule extends_trans)
qed

lemma extends_sync: "extends s (sync s)"
  by (simp add: extends_def sync_keeps)

lemma extends_click_loop:
  "click_loop w d i scr ct v ns s = (c, clicked, s') \<Longrightarrow> extends s s'"
proof (induction ns arbitrary: s)
  case Nil
  then show ?case by (simp add: extends_refl)
next
  case (Cons n ns)
  show ?case
  proof (cases "stop_event (sync s) \<or> pause_event (sync s)")
    case True
    then show ?thesis using Cons.prems extends_sync [of s] by (auto simp: Let_def)
  next
    case False
    obtain p s1 where f: "find w n scr (sync s) = (p, s1)" by fastforce
    have a: "extends s s1" using extends_sync extends_find [OF f] by (rule extends_trans)
    show ?thesis
    proof (cases p)
      case None
      then have "click_loop w d i scr ct v ns s1 = (c, clicked, s')"
        using Cons.prems False f by (simp add: Let_def)
      from a Cons.IH [OF this] show ?thesis by (rule extends_trans)
    next
      case (Some xy)
      obtain x y where xy: "xy = (x, y)" by fastforce
      obtain c2 cl2 s2 where m: "on_match w d i ct v n x y s1 = (c2, cl2, s2)"
        by (metis prod_cases3)
      have b: "extends s s2" using a extends_on_match [OF m] by (rule extends_trans)
      show ?thesis
      proof (cases "c2 = Next")
        case True
        then have "click_loop w d i scr ct v ns s2 = (c, clicked, s')"
          using Cons.prems False f Some xy m by (simp add: Let_def)
        from b Cons.IH [OF this] show ?thesis by (rule extends_trans)
      next
        case False
        then have "s' = s2"
          using Cons.prems \<open>\<not> (stop_event (sync s) \<or> pause_event (sync s))\<close> f Some xy m
          by (cases c2) (auto simp: Let_def)
        then show ?thesis using b by simp
      qed
    qed
  qed
qed

subsection \<open>Abort detectors come first\<close>

lemma click_free_append_Find:
  "click_times [Capture a, Find b n, Find c m] = []" "click_times [Capture a, Find b n] = []"
  by simp_all

lemma iteration_extends:
  "\<exists>evs. trace (snd (iteration w d i s)) = trace s @ evs
       \<and> (find_names evs = [] \<or> find_names evs = [''lose'']
           \<or> take 2 (find_names evs) = [''lose'', ''notupo''])"
proof -
  let ?s1 = "outside w (Capture (now s)) s"
  have g: "get_screen w s = (w_screen w (now s), ?s1)" by (simp add: get_screen_def)
  show ?thesis
  proof (cases "w_screen w (now s)")
    case None
    then have "trace (snd (iteration w d i s)) = trace s @ [Capture (now s)]"
      by (simp add: iteration_def g outside_fields)
    then show ?thesis by auto
  next
    case (Some scr)
    let ?s2 = "outside w (Find (now ?s1) ''lose'') ?s1"
    have f1: "find w ''lose'' scr ?s1 = (find_template (w_clicker w) (w_env w) ''lose'' scr, ?s2)"
      by (simp add: find_def)
    show ?thesis
    proof (cases "find_template (w_clicker w) (w_env w) ''lose'' scr = None")
      case False
      have "trace (snd (iteration w d i s)) = trace s @ [Capture (now s), Find (now ?s1) ''lose'']"
        unfolding iteration_lose [OF Some False] abort_block_result by (simp add: outside_fields)
      then show ?thesis by auto
    next
      case True
      let ?s3 = "outside w (Find (now ?s2) ''notupo'') ?s2"
      have t3: "trace ?s3 = trace s @ [Capture (now s), Find (now ?s1) ''lose'', Find (now ?s2) ''notupo'']"
        by (simp add: outside_fields)
      show ?thesis
      proof (cases "find_template (w_clicker w) (w_env w) ''notupo'' scr = None")
        case False
        have "trace (snd (iteration w d i s)) = trace ?s3"
          unfolding iteration_notupo [OF Some True False] abort_block_result by simp
        then show ?thesis using t3 by auto
      next
        case nn: True
        have e: "extends ?s3 (snd (iteration w d i s))"
        proof (cases "now s - last_click_time ?s3 < click_cooldown")
          case True
          then have "snd (iteration w d i s) = sleep 100 ?s3"
            using Some \<open>find_template (w_clicker w) (w_env w) ''lose'' scr = None\<close> nn
            by (simp add: iteration_def get_screen_def find_def Let_def)
          then show ?thesis by (simp add: extends_def)
        next
          case False
          obtain c4 cl4 s4 where l: "click_loop w d i scr (now s) (now s - last_log_time s > 10000) (w_names w) ?s3 = (c4, cl4, s4)"
            by (metis prod_cases3)
          have e4: "extends ?s3 s4" by (rule extends_click_loop [OF l])
          have "snd (iteration w d i s) = s4 \<or> snd (iteration w d i s) = sleep 500 s4
              \<or> snd (iteration w d i s) = sleep 500 ((wlog w i ''waiting for a target'' Info s4)\<lparr>last_log_time := now s\<rparr>)"
            using Some \<open>find_template (w_clicker w) (w_env w) ''lose'' scr = None\<close> nn False l
            by (cases c4) (simp_all add: iteration_def get_screen_def find_def Let_def)
          then show ?thesis using e4 by (auto simp: extends_def)
        qed
        then obtain evs where "trace (snd (iteration w d i s)) = trace ?s3 @ evs"
          by (auto simp: extends_def)
        then have "trace (snd (iteration w d i s))
            = trace s @ ([Capture (now s), Find (now ?s1) ''lose'', Find (now ?s2) ''notupo''] @ evs)"
          using t3 by simp
        moreover have "take 2 (find_names ([Capture (now s), Find (now ?s1) ''lose'', Find (now ?s2) ''notupo''] @ evs))
            = [''lose'', ''notupo'']" by simp
        ultimately show ?thesis by blast
      qed
    qed
  qed
qed

lemma iteration_abort_no_click:
  assumes "w_screen w (now s) = Some scr"
    and "find_template (w_clicker w) (w_env w) ''lose'' scr \<noteq> None
       \<or> find_template (w_clicker w) (w_env w) ''notupo'' scr \<noteq> None"
  shows "\<exists>t1 t2. trace (snd (iteration w d i s)) = trace s @ [Capture (now s), Find t1 ''lose'']
     \<or> trace (snd (iteration w d i s)) = trace s @ [Capture (now s), Find t1 ''lose'', Find t2 ''notupo'']"
proof (cases "find_template (w_clicker w) (w_env w) ''lose'' scr = None")
  case False
  show ?thesis
    unfolding iteration_lose [OF assms(1) False] abort_block_result by (simp add: outside_fields)
next
  case True
  then have n: "find_template (w_clicker w) (w_env w) ''notupo'' scr \<noteq> None" using assms(2) by blast
  show ?thesis
    unfolding iteration_notupo [OF assms(1) True n] abort_block_result by (simp add: outside_fields)
qed

text \<open>
  Claim C5. In every pass the searches start with \<^verbatim>\<open>lose\<close> and then \<^verbatim>\<open>notupo\<close>, before any
  template of the catalogue is searched (the list of searched names of a pass is empty when
  the capture failed, is \<^verbatim>\<open>lose\<close> alone, or begins with \<^verbatim>\<open>lose\<close>, \<^verbatim>\<open>notupo\<close>); and if one
  of the two matches the captured frame, the pass makes no click at all, whatever else
  would match: it consists of the capture and the one or two searches.
\<close>

theorem abort_priority:
  "(\<exists>evs. trace (snd (iteration w d i s)) = trace s @ evs
        \<and> (find_names evs = [] \<or> find_names evs = [''lose'']
            \<or> take 2 (find_names evs) = [''lose'', ''notupo'']))
 \<and> (\<forall>scr. w_screen w (now s) = Some scr
        \<and> (find_template (w_clicker w) (w_env w) ''lose'' scr \<noteq> None
           \<or> find_template (w_clicker w) (w_env w) ''notupo'' scr \<noteq> None)
      \<longrightarrow> (\<exists>evs. trace (snd (iteration w d i s)) = trace s @ evs
                 \<and> (\<forall>t calls. Click t calls \<notin> set evs)
                 \<and> (find_names evs = [''lose''] \<or> find_names evs = [''lose'', ''notupo''])))"
proof -
  have b: "\<exists>evs. trace (snd (iteration w d i s)) = trace s @ evs
                 \<and> (\<forall>t calls. Click t calls \<notin> set evs)
                 \<and> (find_names evs = [''lose''] \<or> find_names evs = [''lose'', ''notupo''])"
    if "w_screen w (now s) = Some scr"
      "find_template (w_clicker w) (w_env w) ''lose'' scr \<noteq> None
           \<or> find_template (w_clicker w) (w_env w) ''notupo'' scr \<noteq> None" for scr
    using iteration_abort_no_click [OF that, of d i] by auto
  show ?thesis using iteration_extends [of w d i s] b by blast
qed

theorem abort_priority_witness:
  "w_screen lose_world (now (wstate_init 100000 [] logger_init)) = Some ''frame''
 \<and> find_template (w_clicker lose_world) (w_env lose_world) ''lose'' ''frame'' \<noteq> None
 \<and> find_template (w_clicker lose_world) (w_env lose_world) ''button1'' ''frame'' \<noteq> None
 \<and> click_times (trace (snd (iteration lose_world ''A'' ''device A''
                              (wstate_init 100000 [] logger_init)))) = []
 \<and> trace (snd (iteration lose_world ''A'' ''device A'' (wstate_init 100000 [] logger_init)))
      = [Capture 100000, Find 100050 ''lose'']"
proof -
  let ?S = "wstate_init 100000 [] logger_init"
  have h: "w_screen lose_world (now ?S) = Some ''frame''
     \<and> (find_template (w_clicker lose_world) (w_env lose_world) ''lose'' ''frame'' \<noteq> None
        \<or> find_template (w_clicker lose_world) (w_env lose_world) ''notupo'' ''frame'' \<noteq> None)"
    by (simp add: lose_world_def world_hit_sel find_template_env_hit)
  have t: "trace (snd (iteration lose_world ''A'' ''device A'' ?S)) = [Capture 100000, Find 100050 ''lose'']"
    by (simp add: lose_world_def worker_eval)
  from abort_priority [of lose_world "''A''" "''device A''" ?S] h
  obtain evs where "trace (snd (iteration lose_world ''A'' ''device A'' ?S)) = trace ?S @ evs"
    "\<forall>t calls. Click t calls \<notin> set evs" by blast
  then have "\<forall>t calls. Click t calls \<notin> set (trace (snd (iteration lose_world ''A'' ''device A'' ?S)))"
    by (simp add: wstate_init_def)
  then show ?thesis using h t
    by (simp add: lose_world_def world_hit_sel find_template_env_hit)
qed

subsection \<open>A click counts as made whether or not adb dispatched it\<close>

lemma execute_adb_command_fail:
  "subprocess E d c = Inl e \<Longrightarrow> execute_adb_command E d c = ([], [(d, c)])"
  by (simp add: execute_adb_command_def execute_adb_command_body_def)

lemma tap_True: "fst (tap E d x y) = True"
  by (simp add: tap_def tap_body_def execute_adb_command_def split: prod.splits sum.splits)

lemma random_click_subprocess:
  "random_click (E\<lparr>subprocess := f\<rparr>) d x y ri ru = random_click E d x y ri ru"
  by (simp add: random_click_def random_click_body_def tap_def tap_body_def
      execute_adb_command_def Let_def split: prod.splits sum.splits)

lemma random_click_True: "numpy_ok E \<Longrightarrow> fst (random_click E d x y ri ru)"
  by (simp add: random_click_calls)

lemma click_True: "numpy_ok (w_env w) \<Longrightarrow> fst (click w d x y s)"
  using random_click_True [of "w_env w" d x y "w_randint w (now s)" "w_uniform w (now s)"]
  by (auto simp: click_def split: prod.splits)

lemma lct_keep [simp]:
  "last_click_time (sleep ms s) = last_click_time s"
  "last_click_time (wlog w d m l s) = last_click_time s"
  "last_click_time (queue_put e s) = last_click_time s"
  "last_click_time (random_delay w lo hi s) = last_click_time s"
  "last_click_time (outside w ev s) = last_click_time s"
  by (simp_all add: sleep_fields wlog_def queue_put_def random_delay_def outside_fields)

lemma on_button10_clicked:
  assumes "numpy_ok (w_env w)"
  shows "fst (snd (on_button10 w d i ct x y s)) \<and> last_click_time (snd (snd (on_button10 w d i ct x y s))) = ct"
proof -
  obtain ok s2 where c: "click w d x y s = (ok, s2)" by fastforce
  have ok: ok using click_True [OF assms, of d x y s] c by simp
  show ?thesis using c ok
    by (simp add: on_button10_def Let_def get_screen_def find_def abort_block_result
        split: option.splits prod.splits)
qed

lemma on_button7_clicked:
  assumes "numpy_ok (w_env w)"
  shows "fst (snd (on_button7 w d i ct x y s)) \<and> last_click_time (snd (snd (on_button7 w d i ct x y s))) = ct"
proof -
  let ?s3 = "sleep (uniform_ms w 8000 10000 s)
      (wlog w i (''button7 detected, clicking after ms '' @ str_int (int (uniform_ms w 8000 10000 s))) Info s)"
  obtain ok s4 where c: "click w d x y ?s3 = (ok, s4)" by fastforce
  have ok: ok using click_True [OF assms, of d x y ?s3] c by simp
  show ?thesis using c ok by (simp add: on_button7_def Let_def)
qed

lemma on_other_button_clicked:
  assumes "numpy_ok (w_env w)"
  shows "fst (snd (on_other_button w d i ct n x y s))
       \<and> last_click_time (snd (snd (on_other_button w d i ct n x y s))) = ct"
proof -
  obtain ok s2 where c: "click w d x y s = (ok, s2)" by fastforce
  have ok: ok using click_True [OF assms, of d x y s] c by simp
  show ?thesis using c ok by (simp add: on_other_button_def Let_def)
qed

lemma on_match_clicked:
  assumes "numpy_ok (w_env w)"
  shows "fst (snd (on_match w d i ct v n x y s))
       \<and> last_click_time (snd (snd (on_match w d i ct v n x y s))) = ct"
  unfolding on_match_def Let_def
  using on_button10_clicked [OF assms] on_button7_clicked [OF assms] on_other_button_clicked [OF assms]
  by simp

text \<open>
  Claim C10. \<^verbatim>\<open>execute_adb_command\<close> turns every exception of the adb subprocess into the
  empty string, \<^verbatim>\<open>tap\<close> returns \<^verbatim>\<open>True\<close> in every case, and \<^verbatim>\<open>random_click\<close> drops what
  \<^verbatim>\<open>tap\<close> returns: its result does not depend on the subprocess at all and is \<^verbatim>\<open>True\<close>
  whenever numpy can be imported. So in the worker every matched template counts as
  clicked and \<^verbatim>\<open>last_click_time\<close> is set, whether the tap reached the device or not.
\<close>

theorem click_success_ignores_dispatch:
  "(subprocess E dev cmd = Inl e \<longrightarrow> execute_adb_command E dev cmd = ([], [(dev, cmd)]))
 \<and> fst (tap E dev tx ty) = True
 \<and> random_click (E\<lparr>subprocess := f\<rparr>) dev tx ty ri ru = random_click E dev tx ty ri ru
 \<and> (numpy_ok E \<longrightarrow> fst (random_click E dev tx ty ri ru))
 \<and> (numpy_ok (w_env w) \<longrightarrow>
       fst (snd (on_match w d i ct v n x y s))
     \<and> last_click_time (snd (snd (on_match w d i ct v n x y s))) = ct)"
  using execute_adb_command_fail [of E dev cmd e] tap_True [of E dev tx ty]
    random_click_subprocess [where E = E and f = f and d = dev and x = tx and y = ty
      and ri = ri and ru = ru] random_click_True [of E dev tx ty ri ru]
    on_match_clicked [of w d i ct v n x y s]
  by blast

theorem click_success_ignores_dispatch_witness:
  "subprocess env_adb_down ''A'' ''shell input tap 135 220'' = Inl (Raised ''CalledProcessError'')
 \<and> execute_adb_command env_adb_down ''A'' ''shell input tap 135 220''
      = ([], [(''A'', ''shell input tap 135 220'')])
 \<and> numpy_ok env_adb_down
 \<and> fst (random_click env_adb_down ''A'' 130 220 0 0)
 \<and> numpy_ok (w_env world_adb_down)
 \<and> fst (snd (on_match world_adb_down ''A'' ''device A'' 100000 False ''button1'' 130 220
                 (wstate_init 100000 [] logger_init)))
 \<and> last_click_time (snd (snd (on_match world_adb_down ''A'' ''device A'' 100000 False ''button1''
                 130 220 (wstate_init 100000 [] logger_init)))) = 100000"
proof -
  have h1: "subprocess env_adb_down ''A'' ''shell input tap 135 220'' = Inl (Raised ''CalledProcessError'')"
    and h2: "numpy_ok env_adb_down" and h3: "numpy_ok (w_env world_adb_down)"
    by (simp_all add: env_adb_down_def world_adb_down_def env_hit_def)
  show ?thesis
    using click_success_ignores_dispatch [where E = env_adb_down and dev = "''A''"
        and cmd = "''shell input tap 135 220''" and e = "Raised ''CalledProcessError''"
        and tx = 130 and ty = 220 and f = "\<lambda>d c. Inr []" and ri = 0 and ru = 0
        and w = world_adb_down and d = "''A''" and i = "''device A''" and ct = 100000
        and v = False and n = "''button1''" and x = 130 and y = 220
        and s = "wstate_init 100000 [] logger_init"] h1 h2 h3
    by simp
qed

subsection \<open>The supervisor: one running worker per device\<close>

lemma restart_eval:
  "threads restart_run =
     [\<lparr>t_device = ''A'', t_alive = True, t_stop = 0, t_pause = 1, t_run_duration = 1\<rparr>,
      \<lparr>t_device = ''A'', t_alive = True, t_stop = 2, t_pause = 3, t_run_duration = 1\<rparr>]
 \<and> events restart_run = [True, False, False, False]
 \<and> device_threads restart_run ''A'' = Some 1"
  by (simp add: restart_run_def ui_init_def start_device_def stop_device_def is_alive_def
      thread_exit_def returns_early_def asked_duration_def Let_def)

lemma ui_invI:
  assumes "\<And>d th. device_threads ui d = Some th \<Longrightarrow>
          th < length (threads ui) \<and> t_device (threads ui ! th) = d
        \<and> stop_events ui d = Some (t_stop (threads ui ! th))"
    and "\<And>d ev. stop_events ui d = Some ev \<Longrightarrow> ev < length (events ui)"
    and "\<And>th. th < length (threads ui) \<Longrightarrow> t_stop (threads ui ! th) < length (events ui)"
    and "\<And>th. th < length (threads ui) \<Longrightarrow> t_alive (threads ui ! th) \<Longrightarrow>
          \<not> events ui ! t_stop (threads ui ! th) \<Longrightarrow>
          device_threads ui (t_device (threads ui ! th)) = Some th"
  shows "ui_inv ui"
  unfolding ui_inv_def using assms by blast

lemma ui_inv_reg:
  "ui_inv ui \<Longrightarrow> device_threads ui d = Some th \<Longrightarrow>
     th < length (threads ui) \<and> t_device (threads ui ! th) = d
   \<and> stop_events ui d = Some (t_stop (threads ui ! th))"
  unfolding ui_inv_def by blast

lemma ui_inv_ev: "ui_inv ui \<Longrightarrow> stop_events ui d = Some ev \<Longrightarrow> ev < length (events ui)"
  unfolding ui_inv_def by blast

lemma ui_inv_tstop: "ui_inv ui \<Longrightarrow> th < length (threads ui) \<Longrightarrow> t_stop (threads ui ! th) < length (events ui)"
  unfolding ui_inv_def by blast

lemma ui_inv_run:
  "ui_inv ui \<Longrightarrow> th < length (threads ui) \<Longrightarrow> t_alive (threads ui ! th) \<Longrightarrow>
     \<not> events ui ! t_stop (threads ui ! th) \<Longrightarrow>
     device_threads ui (t_device (threads ui ! th)) = Some th"
  unfolding ui_inv_def by blast

lemma ui_inv_init: "ui_inv ui_init"
  by (rule ui_invI) (simp_all add: ui_init_def)

lemma thread_exit_fields:
  "events (thread_exit k ui) = events ui" "device_threads (thread_exit k ui) = device_threads ui"
  "stop_events (thread_exit k ui) = stop_events ui"
  "length (threads (thread_exit k ui)) = length (threads ui)"
  by (simp_all add: thread_exit_def)

lemma thread_exit_nth:
  "th < length (threads ui) \<Longrightarrow>
     t_device (threads (thread_exit k ui) ! th) = t_device (threads ui ! th)
   \<and> t_stop (threads (thread_exit k ui) ! th) = t_stop (threads ui ! th)
   \<and> (t_alive (threads (thread_exit k ui) ! th) \<longrightarrow> t_alive (threads ui ! th))"
  by (simp add: thread_exit_def nth_list_update)

lemma ui_inv_exit:
  assumes "ui_inv ui"
  shows "ui_inv (thread_exit k ui)"
proof (rule ui_invI)
  fix d th assume "device_threads (thread_exit k ui) d = Some th"
  then have r: "device_threads ui d = Some th" by (simp add: thread_exit_fields)
  from ui_inv_reg [OF assms r] thread_exit_nth [of th ui k]
  show "th < length (threads (thread_exit k ui)) \<and> t_device (threads (thread_exit k ui) ! th) = d
        \<and> stop_events (thread_exit k ui) d = Some (t_stop (threads (thread_exit k ui) ! th))"
    by (simp add: thread_exit_fields)
next
  fix d ev assume "stop_events (thread_exit k ui) d = Some ev"
  then show "ev < length (events (thread_exit k ui))"
    using ui_inv_ev [OF assms, of d ev] by (simp add: thread_exit_fields)
next
  fix th assume "th < length (threads (thread_exit k ui))"
  then have l: "th < length (threads ui)" by (simp add: thread_exit_fields)
  show "t_stop (threads (thread_exit k ui) ! th) < length (events (thread_exit k ui))"
    using ui_inv_tstop [OF assms l] thread_exit_nth [OF l, of k] by (simp add: thread_exit_fields)
next
  fix th assume a: "th < length (threads (thread_exit k ui))"
    "t_alive (threads (thread_exit k ui) ! th)"
    "\<not> events (thread_exit k ui) ! t_stop (threads (thread_exit k ui) ! th)"
  have l: "th < length (threads ui)" using a(1) by (simp add: thread_exit_fields)
  have "t_alive (threads ui ! th)" "\<not> events ui ! t_stop (threads ui ! th)"
    using a(2,3) thread_exit_nth [OF l, of k] by (simp_all add: thread_exit_fields)
  from ui_inv_run [OF assms l this]
  show "device_threads (thread_exit k ui) (t_device (threads (thread_exit k ui) ! th)) = Some th"
    using thread_exit_nth [OF l, of k] by (simp add: thread_exit_fields)
qed

lemma ui_inv_set_event:
  assumes "ui_inv ui"
  shows "ui_inv (ui\<lparr>events := (events ui)[ev := True]\<rparr>)"
proof (rule ui_invI)
  fix d th assume "device_threads (ui\<lparr>events := (events ui)[ev := True]\<rparr>) d = Some th"
  then have r: "device_threads ui d = Some th" by simp
  from ui_inv_reg [OF assms r]
  show "th < length (threads (ui\<lparr>events := (events ui)[ev := True]\<rparr>))
      \<and> t_device (threads (ui\<lparr>events := (events ui)[ev := True]\<rparr>) ! th) = d
      \<and> stop_events (ui\<lparr>events := (events ui)[ev := True]\<rparr>) d
          = Some (t_stop (threads (ui\<lparr>events := (events ui)[ev := True]\<rparr>) ! th))"
    by simp
next
  fix d e assume "stop_events (ui\<lparr>events := (events ui)[ev := True]\<rparr>) d = Some e"
  then show "e < length (events (ui\<lparr>events := (events ui)[ev := True]\<rparr>))"
    using ui_inv_ev [OF assms, of d e] by simp
next
  fix th assume "th < length (threads (ui\<lparr>events := (events ui)[ev := True]\<rparr>))"
  then show "t_stop (threads (ui\<lparr>events := (events ui)[ev := True]\<rparr>) ! th)
      < length (events (ui\<lparr>events := (events ui)[ev := True]\<rparr>))"
    using ui_inv_tstop [OF assms, of th] by simp
next
  fix th assume a: "th < length (threads (ui\<lparr>events := (events ui)[ev := True]\<rparr>))"
    "t_alive (threads (ui\<lparr>events := (events ui)[ev := True]\<rparr>) ! th)"
    "\<not> events (ui\<lparr>events := (events ui)[ev := True]\<rparr>)
         ! t_stop (threads (ui\<lparr>events := (events ui)[ev := True]\<rparr>) ! th)"
  have l: "th < length (threads ui)" and al: "t_alive (threads ui ! th)" using a(1,2) by simp_all
  have k: "t_stop (threads ui ! th) < length (events ui)" by (rule ui_inv_tstop [OF assms l])
  have n: "\<not> (events ui)[ev := True] ! t_stop (threads ui ! th)" using a(3) by simp
  have "\<not> events ui ! t_stop (threads ui ! th)"
  proof (cases "ev = t_stop (threads ui ! th)")
    case True
    then show ?thesis using n k by simp
  next
    case False
    then show ?thesis using n by simp
  qed
  from ui_inv_run [OF assms l al this]
  show "device_threads (ui\<lparr>events := (events ui)[ev := True]\<rparr>)
          (t_device (threads (ui\<lparr>events := (events ui)[ev := True]\<rparr>) ! th)) = Some th"
    by simp
qed

lemma ui_inv_stop: "ui_inv ui \<Longrightarrow> ui_inv (stop_device d b ui)"
  unfolding stop_device_def Let_def
  by (simp add: ui_inv_set_event ui_inv_exit split: option.splits)

lemma stop_device_fields:
  "device_threads (stop_device d b ui) = device_threads ui"
  "stop_events (stop_device d b ui) = stop_events ui"
  "pause_events (stop_device d b ui) = pause_events ui"
  "length (threads (stop_device d b ui)) = length (threads ui)"
  "length (events (stop_device d b ui)) = length (events ui)"
  by (simp_all add: stop_device_def Let_def thread_exit_def split: option.splits)

lemma stop_device_nth:
  "th < length (threads ui) \<Longrightarrow>
     t_device (threads (stop_device d b ui) ! th) = t_device (threads ui ! th)
   \<and> t_stop (threads (stop_device d b ui) ! th) = t_stop (threads ui ! th)"
  by (simp add: stop_device_def Let_def thread_exit_def nth_list_update split: option.splits)

lemma stop_device_sets:
  assumes "stop_events ui d = Some ev" "ev < length (events ui)"
  shows "events (stop_device d b ui) ! ev"
  using assms
  by (simp add: stop_device_def thread_exit_def Let_def split: option.splits)

lemma stop_device_signals:
  assumes "ui_inv ui" "th < length (threads ui)" "t_device (threads ui ! th) = d"
    "t_alive (threads (stop_device d b ui) ! th)"
  shows "events (stop_device d b ui) ! t_stop (threads (stop_device d b ui) ! th)"
proof (rule ccontr)
  let ?u = "stop_device d b ui"
  assume n: "\<not> events ?u ! t_stop (threads ?u ! th)"
  have i: "ui_inv ?u" by (rule ui_inv_stop [OF assms(1)])
  have l: "th < length (threads ?u)" using assms(2) by (simp add: stop_device_fields)
  have dv: "t_device (threads ?u ! th) = d" using assms(2,3) stop_device_nth [of th ui d b] by simp
  have reg: "device_threads ?u d = Some th"
    using ui_inv_run [OF i l assms(4) n] dv by simp
  have se: "stop_events ?u d = Some (t_stop (threads ?u ! th))"
    using ui_inv_reg [OF i reg] by simp
  then have se': "stop_events ui d = Some (t_stop (threads ?u ! th))"
    by (simp add: stop_device_fields)
  have "t_stop (threads ?u ! th) < length (events ui)"
    by (rule ui_inv_ev [OF assms(1) se'])
  from stop_device_sets [OF se' this] n show False by simp
qed

lemma start_device_early: "returns_early dur dlg \<Longrightarrow> start_device d dur dlg b ok ui = ui"
  by (simp add: start_device_def)

lemma start_device_result:
  assumes "\<not> returns_early dur dlg"
  shows "start_device d dur dlg b ok ui =
     (let ui1 = stop_device d b ui;
          new = \<lparr>t_device = d, t_alive = ok, t_stop = length (events ui1),
                 t_pause = Suc (length (events ui1)), t_run_duration = asked_duration dur dlg\<rparr>
      in \<lparr>events = events ui1 @ [False, False],
          threads = threads ui1 @ [new],
          device_threads = (if ok then (device_threads ui1)(d \<mapsto> length (threads ui1))
                            else (device_threads ui1)(d := None)),
          stop_events = (if ok then (stop_events ui1)(d \<mapsto> length (events ui1))
                         else (stop_events ui1)(d := None)),
          pause_events = (if ok then (pause_events ui1)(d \<mapsto> Suc (length (events ui1)))
                          else (pause_events ui1)(d := None))\<rparr>)"
  using assms by (simp add: start_device_def Let_def)

lemma ui_inv_start:
  assumes "ui_inv ui"
  shows "ui_inv (start_device d dur dlg b ok ui)"
proof (cases "returns_early dur dlg")
  case True
  then show ?thesis using assms by (simp add: start_device_early)
next
  case False
  define ui1 where "ui1 = stop_device d b ui"
  define n where "n = length (threads ui1)"
  define m where "m = length (events ui1)"
  define new where "new = \<lparr>t_device = d, t_alive = ok, t_stop = m, t_pause = Suc m,
                           t_run_duration = asked_duration dur dlg\<rparr>"
  define U where "U = start_device d dur dlg b ok ui"
  have i1: "ui_inv ui1" unfolding ui1_def by (rule ui_inv_stop [OF assms])
  have Uev: "events U = events ui1 @ [False, False]"
    and Uth: "threads U = threads ui1 @ [new]"
    and Udt: "device_threads U = (if ok then (device_threads ui1)(d \<mapsto> n) else (device_threads ui1)(d := None))"
    and Use: "stop_events U = (if ok then (stop_events ui1)(d \<mapsto> m) else (stop_events ui1)(d := None))"
    unfolding U_def start_device_result [OF False] Let_def ui1_def n_def m_def new_def by simp_all
  have old: "threads U ! th = threads ui1 ! th" if "th < n" for th
    using that unfolding Uth n_def by (simp add: nth_append)
  have newth: "threads U ! n = new" unfolding Uth n_def by simp
  have len: "length (threads U) = Suc n" "length (events U) = m + 2"
    unfolding Uth Uev n_def m_def by simp_all
  have oldev: "events U ! k = events ui1 ! k" if "k < m" for k
    using that unfolding Uev m_def by (simp add: nth_append)
  have "ui_inv U"
  proof (rule ui_invI)
    fix d' th assume a: "device_threads U d' = Some th"
    show "th < length (threads U) \<and> t_device (threads U ! th) = d'
        \<and> stop_events U d' = Some (t_stop (threads U ! th))"
    proof (cases "d' = d")
      case True
      then have "ok \<and> th = n" using a unfolding Udt by (simp split: if_splits)
      then show ?thesis using True newth len unfolding Use new_def by simp
    next
      case False
      then have r: "device_threads ui1 d' = Some th" using a unfolding Udt by (simp split: if_splits)
      from ui_inv_reg [OF i1 r] have t: "th < n" "t_device (threads ui1 ! th) = d'"
        "stop_events ui1 d' = Some (t_stop (threads ui1 ! th))" unfolding n_def by simp_all
      show ?thesis using t old [OF t(1)] False len unfolding Use by simp
    qed
  next
    fix d' ev assume a: "stop_events U d' = Some ev"
    show "ev < length (events U)"
    proof (cases "d' = d")
      case True
      then have "ev = m" using a unfolding Use by (simp split: if_splits)
      then show ?thesis using len by simp
    next
      case False
      then have "stop_events ui1 d' = Some ev" using a unfolding Use by (simp split: if_splits)
      from ui_inv_ev [OF i1 this] show ?thesis using len unfolding m_def by simp
    qed
  next
    fix th assume a: "th < length (threads U)"
    show "t_stop (threads U ! th) < length (events U)"
    proof (cases "th = n")
      case True
      then show ?thesis using newth len unfolding new_def by simp
    next
      case False
      then have t: "th < n" using a len by simp
      have "t_stop (threads ui1 ! th) < m" using ui_inv_tstop [OF i1, of th] t unfolding n_def m_def by simp
      then show ?thesis using old [OF t] len by simp
    qed
  next
    fix th assume a: "th < length (threads U)" "t_alive (threads U ! th)"
      "\<not> events U ! t_stop (threads U ! th)"
    show "device_threads U (t_device (threads U ! th)) = Some th"
    proof (cases "th = n")
      case True
      then have "ok" using a(2) newth unfolding new_def by simp
      then show ?thesis using True newth unfolding Udt new_def by simp
    next
      case False
      then have t: "th < n" using a(1) len by simp
      have l1: "th < length (threads ui1)" using t unfolding n_def by simp
      have k: "t_stop (threads ui1 ! th) < m" using ui_inv_tstop [OF i1 l1] unfolding m_def by simp
      have al: "t_alive (threads ui1 ! th)" using a(2) old [OF t] by simp
      have ne: "\<not> events ui1 ! t_stop (threads ui1 ! th)"
        using a(3) old [OF t] oldev [OF k] by simp
      have reg: "device_threads ui1 (t_device (threads ui1 ! th)) = Some th"
        by (rule ui_inv_run [OF i1 l1 al ne])
      have lu: "th < length (threads ui)" using l1 unfolding ui1_def by (simp add: stop_device_fields)
      have nd: "t_device (threads ui1 ! th) \<noteq> d"
      proof
        assume e: "t_device (threads ui1 ! th) = d"
        then have "t_device (threads ui ! th) = d"
          using stop_device_nth [OF lu, of d b] unfolding ui1_def by simp
        from stop_device_signals [OF assms lu this, of b] al ne show False
          unfolding ui1_def by simp
      qed
      show ?thesis using reg nd old [OF t] unfolding Udt by simp
    qed
  qed
  then show ?thesis unfolding U_def .
qed

lemma ui_inv_step: "ui_inv ui \<Longrightarrow> ui_inv (step c ui)"
  by (cases c) (simp_all add: ui_inv_start ui_inv_stop ui_inv_exit)

lemma ui_inv_run_ops: "ui_inv ui \<Longrightarrow> ui_inv (run cs ui)"
  by (induction cs arbitrary: ui) (simp_all add: ui_inv_step)

lemma running_registered:
  assumes "ui_inv ui" "running ui d th"
  shows "device_threads ui d = Some th"
proof -
  have l: "th < length (threads ui)" and dv: "t_device (threads ui ! th) = d"
    and al: "t_alive (threads ui ! th)"
    using assms(2) by (simp_all add: running_def live_def)
  have "t_stop (threads ui ! th) < length (events ui)" by (rule ui_inv_tstop [OF assms(1) l])
  then have "\<not> events ui ! t_stop (threads ui ! th)"
    using assms(2) l by (simp add: running_def stop_is_set_def)
  from ui_inv_run [OF assms(1) l al this] dv show ?thesis by simp
qed

lemma start_device_signals_prior:
  assumes "ui_inv ui" "\<not> returns_early dur dlg" "th < length (threads ui)"
    "live (start_device d dur dlg b ok ui) d th"
  shows "stop_is_set (start_device d dur dlg b ok ui) th"
proof -
  define ui1 where "ui1 = stop_device d b ui"
  define U where "U = start_device d dur dlg b ok ui"
  have Uev: "events U = events ui1 @ [False, False]"
    and Uth: "\<exists>new. threads U = threads ui1 @ [new]"
    unfolding U_def start_device_result [OF assms(2)] Let_def ui1_def by simp_all
  have l1: "th < length (threads ui1)" using assms(3) unfolding ui1_def by (simp add: stop_device_fields)
  have old: "threads U ! th = threads ui1 ! th" using Uth l1 by (auto simp: nth_append)
  have i1: "ui_inv ui1" unfolding ui1_def by (rule ui_inv_stop [OF assms(1)])
  have k: "t_stop (threads ui1 ! th) < length (events ui1)" by (rule ui_inv_tstop [OF i1 l1])
  have lv: "t_device (threads ui1 ! th) = d" "t_alive (threads ui1 ! th)"
    using assms(4) old unfolding U_def [symmetric] live_def by simp_all
  have "t_device (threads ui ! th) = d"
    using lv(1) stop_device_nth [OF assms(3), of d b] unfolding ui1_def by simp
  from stop_device_signals [OF assms(1,3) this, of b] lv(2)
  have "events ui1 ! t_stop (threads ui1 ! th)" unfolding ui1_def by simp
  then have "events U ! t_stop (threads U ! th)" using old k Uev by (simp add: nth_append)
  moreover have "th < length (threads U)" using Uth l1 by auto
  moreover have "t_stop (threads U ! th) < length (events U)" using old k Uev by simp
  ultimately show ?thesis unfolding U_def stop_is_set_def by simp
qed

text \<open>
  Claim C1, as stated, fails: \<^verbatim>\<open>start_device\<close> calls \<^verbatim>\<open>stop_device\<close>, which sets the stop
  event and waits with \<^verbatim>\<open>join(0.1)\<close> for a tenth of a second only; a worker that is in a
  longer sleep is still alive when the new thread is started. After two starts of device
  \<^verbatim>\<open>A\<close> the thread objects 0 and 1 are both alive; the first has its stop event set.
\<close>

theorem at_most_one_live_counterexample:
  "live restart_run ''A'' 0 \<and> live restart_run ''A'' 1 \<and> (0::nat) \<noteq> 1
 \<and> stop_is_set restart_run 0 \<and> \<not> stop_is_set restart_run 1"
  using restart_eval by (simp add: live_def stop_is_set_def)

text \<open>
  Claim C1, amended. After every sequence of \<^verbatim>\<open>start_device\<close> and \<^verbatim>\<open>stop_device\<close> calls
  (with worker threads ending in between) each device has at most one live worker whose
  stop event is not set; and a \<^verbatim>\<open>start_device\<close> that does not return at its duration
  check has set the stop event of every earlier worker of the device that is still alive
  when the new session is installed.
\<close>

theorem at_most_one_running_worker:
  "(\<forall>th1 th2. running (run ops ui_init) d th1 \<and> running (run ops ui_init) d th2 \<longrightarrow> th1 = th2)
 \<and> (\<forall>th. \<not> returns_early dur dlg \<and> th < length (threads (run ops ui_init))
          \<and> live (start_device d dur dlg b ok (run ops ui_init)) d th
        \<longrightarrow> stop_is_set (start_device d dur dlg b ok (run ops ui_init)) th)"
proof -
  have i: "ui_inv (run ops ui_init)" by (rule ui_inv_run_ops [OF ui_inv_init])
  have a: "th1 = th2" if "running (run ops ui_init) d th1" "running (run ops ui_init) d th2" for th1 th2
    using running_registered [OF i that(1)] running_registered [OF i that(2)] by simp
  show ?thesis using a start_device_signals_prior [OF i] by blast
qed

theorem at_most_one_running_worker_witness:
  "running restart_run ''A'' 1 \<and> \<not> running restart_run ''A'' 0
 \<and> \<not> returns_early (Some 1) 0
 \<and> live (start_device ''A'' (Some 1) 0 False True
           (run [Start ''A'' (Some 1) 0 False True] ui_init)) ''A'' 0
 \<and> stop_is_set (start_device ''A'' (Some 1) 0 False True
           (run [Start ''A'' (Some 1) 0 False True] ui_init)) 0"
proof -
  have r: "start_device ''A'' (Some 1) 0 False True (run [Start ''A'' (Some 1) 0 False True] ui_init)
         = restart_run"
    by (simp add: restart_run_def)
  have e: "\<not> returns_early (Some 1) 0" by (simp add: returns_early_def asked_duration_def)
  have l0: "live restart_run ''A'' 0" and r1: "running restart_run ''A'' 1"
    using restart_eval by (simp_all add: live_def running_def stop_is_set_def)
  have n: "(0::nat) < length (threads (run [Start ''A'' (Some 1) 0 False True] ui_init))"
    by (simp add: ui_init_def start_device_def stop_device_def returns_early_def
        asked_duration_def Let_def)
  have s0: "stop_is_set restart_run 0"
    using at_most_one_running_worker [of "[Start ''A'' (Some 1) 0 False True]" "''A''"
        "Some 1" 0 False True] e n l0 unfolding r by blast
  have "\<not> running restart_run ''A'' 0"
    using at_most_one_running_worker [of "[Start ''A'' (Some 1) 0 False True, Start ''A'' (Some 1) 0 False True]"
        "''A''" "Some 1" 0 False True] r1 unfolding restart_run_def [symmetric] by auto
  then show ?thesis using r1 e l0 s0 unfolding r by simp
qed

subsection \<open>Discovery: an endpoint that cannot be identified\<close>

lemma adb_lines:
  "split_on (CHR 0x0A) (strip adb_devices_text) = [''List of devices attached'', row_5554, row_5556]"
proof -
  have "split_on (CHR 0x0A) (strip adb_devices_text)
      = [''List of devices attached'', ''emulator-5554'' @ [CHR 0x09] @ ''device'',
         ''emulator-5556'' @ [CHR 0x09] @ ''device'']"
    by (simp add: adb_devices_text_def row_5554_def row_5556_def strip_def is_space_def)
  then show ?thesis by (simp only: row_5554_def row_5556_def)
qed

lemma row_parts:
  "split_ws (strip row_5554) = [''emulator-5554'', ''device'']"
  "split_ws (strip row_5556) = [''emulator-5556'', ''device'']"
  by (simp_all add: row_5554_def row_5556_def split_ws_def strip_def is_space_def)

lemma tag_emulator: "mumu_tag ''emulator-5554'' = Inr []" "mumu_tag ''emulator-5556'' = Inr []"
  by (simp_all add: mumu_tag_def)

lemma tag_mumu: "mumu_tag ''127.0.0.1:16416'' = Inr '' [MuMu-1]''"
  by (simp add: mumu_tag_def parse_int_def parse_digits_def is_digit_def digit_value_def
      strip_def is_space_def mumu_ports_def str_int_def str_nat.simps)

lemma strip_vals: "strip ''sdk'' = ''sdk''" "strip ''google'' = ''google''" "strip [] = []"
  by (simp_all add: strip_def is_space_def)

lemma brand_down_result:
  "list_devices disc_brand_down []
     = ([(''emulator-5554'', ''google sdk''), (''emulator-5556'', '' '')],
        [(''emulator-5554'', ''google sdk''), (''emulator-5556'', '' '')])"
  by (simp add: list_devices_def list_devices_body_def disc_brand_down_def adb_lines row_parts
      tag_emulator identity_queries_def model_prop_def brand_prop_def strip_vals Let_def)

lemma first_model_query_failure_aborts_discovery: "list_devices disc_first_down [] = ([], [])"
  by (simp add: list_devices_def list_devices_body_def disc_first_down_def adb_lines row_parts
      tag_emulator identity_queries_def model_prop_def brand_prop_def strip_vals Let_def)

lemma identity_queries_model_ok:
  assumes "check_output E device_id model_prop = Inr m"
  shows "\<exists>model brand. identity_queries E bc device_id = Inr (model, brand, Some (device_id, brand_prop))
       \<and> (brand @ '' '' @ model) @ (case mumu_tag device_id of Inr tag \<Rightarrow> tag | Inl e \<Rightarrow> [])
           = label E device_id"
  using assms by (simp add: identity_queries_def label_def split: sum.splits)

lemma identify_ok:
  assumes "\<forall>device_id \<in> set (listed_ids lines).
             (\<exists>m. check_output E device_id model_prop = Inr m) \<and> (\<exists>t. mumu_tag device_id = Inr t)"
  shows "identify E lines bc devs = Inr (devs @ map (\<lambda>device_id. (device_id, label E device_id)) (listed_ids lines))"
  using assms
proof (induction lines arbitrary: bc devs)
  case Nil
  then show ?case by simp
next
  case (Cons line rest)
  show ?case
  proof (cases "\<exists>device_id others. split_ws (strip line) = device_id # ''device'' # others")
    case False
    then have l: "listed_ids (line # rest) = listed_ids rest"
      by (auto split: list.splits)
    have i: "identify E (line # rest) bc devs = identify E rest bc devs"
      using False by (auto split: list.splits)
    show ?thesis unfolding l i using Cons.prems l by (intro Cons.IH) simp
  next
    case True
    then obtain device_id others where p: "split_ws (strip line) = device_id # ''device'' # others"
      by blast
    have l: "listed_ids (line # rest) = device_id # listed_ids rest" using p by simp
    obtain m t where m: "check_output E device_id model_prop = Inr m" and t: "mumu_tag device_id = Inr t"
      using Cons.prems l by auto
    obtain model brand where q: "identity_queries E bc device_id = Inr (model, brand, Some (device_id, brand_prop))"
      and lb: "(brand @ '' '' @ model) @ t = label E device_id"
      using identity_queries_model_ok [OF m, of bc] t by auto
    have i: "identify E (line # rest) bc devs
           = identify E rest (Some (device_id, brand_prop)) (devs @ [(device_id, label E device_id)])"
      using p q t lb by simp
    have r: "\<forall>device_id \<in> set (listed_ids rest).
             (\<exists>m. check_output E device_id model_prop = Inr m) \<and> (\<exists>t. mumu_tag device_id = Inr t)"
      using Cons.prems l by simp
    show ?thesis unfolding i l Cons.IH [OF r] by simp
  qed
qed

lemma unique_devices_set:
  "set (unique_devices (map (\<lambda>device_id. (device_id, f device_id)) ids) seen)
     = (\<lambda>device_id. (device_id, f device_id)) ` (set ids - set seen)"
  by (induction ids arbitrary: seen) auto

lemma unique_devices_distinct:
  "distinct (map fst (unique_devices ds seen)) \<and> set (map fst (unique_devices ds seen)) \<inter> set seen = {}"
proof (induction ds seen rule: unique_devices.induct)
  case (1 device_ids)
  then show ?case by simp
next
  case (2 device_id device_info ds device_ids)
  then show ?case by auto
qed

lemma label_brand_failed:
  assumes "check_output E device_id model_prop = Inr m" "check_output E device_id brand_prop = Inl e"
    "mumu_tag device_id = Inr t"
  shows "label E device_id
           = strip (popen_read E device_id brand_prop) @ '' ''
             @ strip (popen_read E device_id model_prop) @ t"
  using assms by (simp add: label_def)

text \<open>
  Claim C6, as stated, fails: when an identity query raises, the handler repeats both
  queries through \<^verbatim>\<open>os.popen\<close>, which returns an empty output for an endpoint that does not
  answer, and the endpoint is appended all the same. In \<open>disc_brand_down\<close> the second
  endpoint's brand query raises and the endpoint is returned with the label \<open>'' ''\<close>, a
  blank brand and a blank model.
\<close>

theorem failed_identity_dropped_counterexample:
  "check_output disc_brand_down ''emulator-5556'' brand_prop = Inl (Raised ''CalledProcessError'')
 \<and> fst (list_devices disc_brand_down [])
      = [(''emulator-5554'', ''google sdk''), (''emulator-5556'', '' '')]"
  using brand_down_result by (simp add: disc_brand_down_def model_prop_def brand_prop_def)

text \<open>
  Claim C6, amended. When the manager step found nothing and every listed endpoint answers
  its model query (and no port fails to parse), an endpoint whose brand query fails is not
  dropped: every endpoint that \<^verbatim>\<open>adb devices\<close> lists in the state \<^verbatim>\<open>device\<close> is returned
  exactly once, and the one whose brand query raised is returned with the label built from
  what the two \<^verbatim>\<open>os.popen\<close> calls of the handler read, blank if they read nothing; so the
  failure of one endpoint's brand query leaves the other endpoints in the result. An
  endpoint whose model query raises is outside this statement.
\<close>

theorem discovery_keeps_unidentified:
  assumes "mumu_devices E = []"
    and "\<forall>device_id \<in> set (listed E).
           (\<exists>m. check_output E device_id model_prop = Inr m) \<and> (\<exists>t. mumu_tag device_id = Inr t)"
  shows "fst (list_devices E [])
           = unique_devices (map (\<lambda>device_id. (device_id, label E device_id)) (listed E)) []
       \<and> set (map fst (fst (list_devices E []))) = set (listed E)
       \<and> distinct (map fst (fst (list_devices E [])))
       \<and> (\<forall>device_id \<in> set (listed E). \<forall>e t.
             check_output E device_id brand_prop = Inl e \<and> mumu_tag device_id = Inr t \<longrightarrow>
             (device_id, strip (popen_read E device_id brand_prop) @ '' ''
                         @ strip (popen_read E device_id model_prop) @ t)
               \<in> set (fst (list_devices E [])))"
proof -
  let ?g = "\<lambda>device_id. (device_id, label E device_id)"
  let ?lines = "split_on (CHR 0x0A) (strip (devices_output E))"
  have b: "list_devices_body E = Inr (map ?g (listed E))"
  proof (cases "length ?lines > 1")
    case True
    then show ?thesis
      using assms identify_ok [of "tl ?lines" E None "[]"]
      by (simp add: list_devices_body_def listed_def Let_def)
  next
    case False
    then have "tl ?lines = []" by (cases ?lines) auto
    then show ?thesis using False assms(1)
      by (simp add: list_devices_body_def listed_def Let_def)
  qed
  have r: "fst (list_devices E []) = unique_devices (map ?g (listed E)) []"
    using b by (simp add: list_devices_def)
  have s: "set (fst (list_devices E [])) = ?g ` set (listed E)"
    unfolding r using unique_devices_set [of "label E" "listed E" "[]"] by simp
  have s1: "set (map fst (fst (list_devices E []))) = set (listed E)"
    using s by (simp add: image_image)
  have d: "distinct (map fst (fst (list_devices E [])))"
    unfolding r using unique_devices_distinct by blast
  have k: "(device_id, strip (popen_read E device_id brand_prop) @ '' ''
                         @ strip (popen_read E device_id model_prop) @ t)
               \<in> set (fst (list_devices E []))"
    if "device_id \<in> set (listed E)" "check_output E device_id brand_prop = Inl e"
      "mumu_tag device_id = Inr t" for device_id e t
  proof -
    have "(\<exists>m. check_output E device_id model_prop = Inr m) \<and> (\<exists>t. mumu_tag device_id = Inr t)"
      using assms(2) that(1) by (rule bspec)
    then obtain m where "check_output E device_id model_prop = Inr m" by (elim conjE exE)
    from label_brand_failed [OF this that(2,3)]
    have e: "label E device_id = strip (popen_read E device_id brand_prop) @ '' ''
                         @ strip (popen_read E device_id model_prop) @ t" .
    have "?g device_id \<in> ?g ` set (listed E)" using that(1) by (rule imageI)
    then show ?thesis unfolding s e [symmetric] .
  qed
  show ?thesis
  proof (intro conjI ballI allI impI)
    show "fst (list_devices E [])
           = unique_devices (map (\<lambda>device_id. (device_id, label E device_id)) (listed E)) []"
      by (rule r)
    show "set (map fst (fst (list_devices E []))) = set (listed E)" by (rule s1)
    show "distinct (map fst (fst (list_devices E [])))" by (rule d)
    fix device_id e t
    assume a: "device_id \<in> set (listed E)"
      "check_output E device_id brand_prop = Inl e \<and> mumu_tag device_id = Inr t"
    show "(device_id, strip (popen_read E device_id brand_prop) @ '' ''
                         @ strip (popen_read E device_id model_prop) @ t)
               \<in> set (fst (list_devices E []))"
      by (rule k [OF a(1) conjunct1 [OF a(2)] conjunct2 [OF a(2)]])
  qed
qed

lemma listed_brand_down: "listed disc_brand_down = [''emulator-5554'', ''emulator-5556'']"
  by (simp add: listed_def disc_brand_down_def adb_lines row_parts)

theorem discovery_keeps_unidentified_witness:
  "mumu_devices disc_brand_down = []
 \<and> listed disc_brand_down = [''emulator-5554'', ''emulator-5556'']
 \<and> check_output disc_brand_down ''emulator-5556'' brand_prop = Inl (Raised ''CalledProcessError'')
 \<and> mumu_tag ''emulator-5556'' = Inr []
 \<and> (''emulator-5556'', '' '') \<in> set (fst (list_devices disc_brand_down []))
 \<and> set (map fst (fst (list_devices disc_brand_down []))) = {''emulator-5554'', ''emulator-5556''}"
proof -
  have h1: "mumu_devices disc_brand_down = []" by (simp add: disc_brand_down_def)
  have h2: "\<forall>device_id \<in> set (listed disc_brand_down).
           (\<exists>m. check_output disc_brand_down device_id model_prop = Inr m)
         \<and> (\<exists>t. mumu_tag device_id = Inr t)"
    unfolding listed_brand_down by (simp add: disc_brand_down_def tag_emulator)
  have b: "check_output disc_brand_down ''emulator-5556'' brand_prop = Inl (Raised ''CalledProcessError'')"
    by (simp add: disc_brand_down_def model_prop_def brand_prop_def)
  have p: "strip (popen_read disc_brand_down ''emulator-5556'' brand_prop) @ '' ''
             @ strip (popen_read disc_brand_down ''emulator-5556'' model_prop) @ [] = '' ''"
    by (simp add: disc_brand_down_def strip_vals)
  have m: "''emulator-5556'' \<in> set (listed disc_brand_down)" unfolding listed_brand_down by simp
  from discovery_keeps_unidentified [OF h1 h2] m b tag_emulator(2) p
  have "(''emulator-5556'', '' '') \<in> set (fst (list_devices disc_brand_down []))"
    by fastforce
  moreover from discovery_keeps_unidentified [OF h1 h2]
  have "set (map fst (fst (list_devices disc_brand_down []))) = {''emulator-5554'', ''emulator-5556''}"
    unfolding listed_brand_down by simp
  ultimately show ?thesis using h1 b tag_emulator(2) listed_brand_down by simp
qed

end
